theory Spec2Isabelle
  imports Main "HOL-Library.Word" "HOL-Library.Multiset"
begin

section \<open>Parameters\<close>

text \<open>
  A \<open>Param\<close> is a key with its value, and \<open>Params\<close> is the ordered slice of them that
  a lookup returns. Go strings are byte strings, so they are \<open>string\<close> here.
\<close>

record Param =
  Key :: string
  Value :: string

type_synonym Params = "Param list"

text \<open>
  \<open>DefName\<close> ranges over the slice and returns at the first pair whose key is the name;
  after the loop it returns the empty string and false.
\<close>

fun DefName :: "Params \<Rightarrow> string \<Rightarrow> string \<times> bool" where
  "DefName [] name = ([], False)"
| "DefName (p # ps) name = (if Key p = name then (Value p, True) else DefName ps name)"

definition ByName :: "Params \<Rightarrow> string \<Rightarrow> string" where
  "ByName ps name = fst (DefName ps name)"

section \<open>The routing tree\<close>

text \<open>
  A node of the radix tree. \<open>nparams\<close> is a \<open>uint8\<close> and \<open>priority\<close> a \<open>uint32\<close>;
  a nil handle is \<open>None\<close>. The Go field \<open>wildcard\<close> (the node has a wildcard child)
  is \<open>wildcardChild\<close> here, since the node kind \<open>wildcard\<close> has that name already.
\<close>

datatype nodeType = static | root | param | wildcard

datatype 'h node = Node
  (typo: nodeType) (path: string) (nparams: "8 word") (indices: string)
  (handle: "'h option") (priority: "32 word") (children: "'h node list")
  (wildcardChild: bool)

text \<open>
  A panic carries its message; an index or a slice bound out of range is the runtime's
  own panic.
\<close>

datatype error = Panic string | IndexOutOfRange

abbreviation (input) sq :: string where
  "sq \<equiv> [CHR 0x27]"

definition emptyNode :: "'h node" where
  "emptyNode = Node static [] 0 [] None 0 [] False"

text \<open>The slice \<open>s[a:b]\<close>, for \<open>a \<le> b \<le> len(s)\<close>.\<close>

definition slice :: "string \<Rightarrow> nat \<Rightarrow> nat \<Rightarrow> string" where
  "slice s a b = take (b - a) (drop a s)"

fun nodes :: "'h node \<Rightarrow> nat" where
  "nodes (Node t p np ix h pr cs w) = Suc (sum_list (map nodes cs))"

subsection \<open>Priorities\<close>

definition bumpPriority :: "'h node \<Rightarrow> 'h node" where
  "bumpPriority n =
     Node (typo n) (path n) (nparams n) (indices n) (handle n) (priority n + 1)
       (children n) (wildcardChild n)"

text \<open>
  The loop of \<open>incrementChildPriority\<close>: while the left neighbour has a strictly lower
  priority, swap with it.
\<close>

fun moveToFront :: "'h node list \<Rightarrow> nat \<Rightarrow> 32 word \<Rightarrow> 'h node list \<times> nat" where
  "moveToFront cs 0 prio = (cs, 0)"
| "moveToFront cs (Suc k) prio =
     (if priority (cs ! k) < prio
      then moveToFront (cs[k := cs ! Suc k, Suc k := cs ! k]) k prio
      else (cs, Suc k))"

definition incrementChildPriority :: "'h node \<Rightarrow> nat \<Rightarrow> error + ('h node \<times> nat)" where
  "incrementChildPriority n pos =
     (if pos < length (children n) then
        let cs0 = (children n)[pos := bumpPriority (children n ! pos)];
            prio = priority (cs0 ! pos);
            r = moveToFront cs0 pos prio;
            cs1 = fst r;
            newPos = snd r
        in if newPos \<noteq> pos then
             if pos < length (indices n) then
               Inr (Node (typo n) (path n) (nparams n)
                      (take newPos (indices n) @ [indices n ! pos] @
                       slice (indices n) newPos pos @ drop (Suc pos) (indices n))
                      (handle n) (priority n) cs1 (wildcardChild n), newPos)
             else Inl IndexOutOfRange
           else Inr (Node (typo n) (path n) (nparams n) (indices n) (handle n) (priority n)
                       cs1 (wildcardChild n), newPos)
      else Inl IndexOutOfRange)"

subsection \<open>Helpers that are not part of the tree's source file\<close>

text \<open>
  Modelled from the spec: \<open>countParams\<close> is called by \<open>register\<close> but its body is not
  among the sources. The spec makes \<open>nparams\<close> the number of wildcards of a pattern
  (section 3), each \<open>:\<close> or \<open>*\<close> starting one, and the field is a \<open>uint8\<close>; the count
  is therefore taken here as the number of \<open>:\<close> and \<open>*\<close> bytes, capped at 255.
\<close>

definition isWild :: "char \<Rightarrow> bool" where
  "isWild c = (c = CHR '':'' \<or> c = CHR ''*'')"

definition countParams :: "string \<Rightarrow> 8 word" where
  "countParams s = of_nat (min 255 (length (filter isWild s)))"

subsection \<open>Insertion\<close>

text \<open>The longest common prefix loop of \<open>register\<close>.\<close>

fun lcp :: "string \<Rightarrow> string \<Rightarrow> nat" where
  "lcp (x # xs) (y # ys) = (if x = y then Suc (lcp xs ys) else 0)"
| "lcp _ _ = 0"

text \<open>First position of a byte in \<open>indices\<close>.\<close>

fun indexByte :: "char \<Rightarrow> string \<Rightarrow> nat option" where
  "indexByte c [] = None"
| "indexByte c (x # xs) = (if c = x then Some 0 else map_option Suc (indexByte c xs))"

text \<open>
  The end of a placeholder: the next \<open>/\<close> or the end of the pattern; a second \<open>:\<close>
  or \<open>*\<close> on the way is the panic "only one wildcard per path segment".
\<close>

function findEnd :: "string \<Rightarrow> nat \<Rightarrow> unit + nat" where
  "findEnd u e =
     (if e < length u \<and> u ! e \<noteq> CHR ''/''
      then (if isWild (u ! e) then Inl () else findEnd u (Suc e))
      else Inr e)"
  by pat_completeness auto
termination
  by (relation "measure (\<lambda>(u, e). length u - e)") auto

declare findEnd.simps [simp del]

function insertChildLoop ::
  "'h node \<Rightarrow> 8 word \<Rightarrow> string \<Rightarrow> string \<Rightarrow> 'h \<Rightarrow> nat \<Rightarrow> nat \<Rightarrow> error + 'h node" where
  "insertChildLoop n numParams uripath abspath h offset i =
     (if \<not> 0 < numParams then
        Inr (Node (typo n) (drop offset uripath) (nparams n) (indices n) (Some h)
               (priority n) (children n) (wildcardChild n))
      else if \<not> i < length uripath then Inl IndexOutOfRange
      else if \<not> isWild (uripath ! i) then
        insertChildLoop n numParams uripath abspath h offset (Suc i)
      else
        (case findEnd uripath (Suc i) of
           Inl _ \<Rightarrow>
             Inl (Panic (''only one wildcard per path segment is allowed, has: '' @ sq @
                         drop i uripath @ sq @ '' in path '' @ sq @ abspath @ sq))
         | Inr end \<Rightarrow>
             if 0 < length (children n) then
               Inl (Panic (''wildcard route '' @ sq @ slice uripath i end @ sq @
                           '' conflicts with existing children in path '' @ sq @ abspath @ sq))
             else if end - i < 2 then
               Inl (Panic (''wildcard must be named with a non-empty name in path '' @ sq @
                           abspath @ sq))
             else if uripath ! i = CHR '':'' then
               (let n1 = (if 0 < i
                          then Node (typo n) (slice uripath offset i) (nparams n) (indices n)
                                 (handle n) (priority n) (children n) (wildcardChild n)
                          else n);
                    offset1 = (if 0 < i then i else offset);
                    numParams1 = numParams - 1
                in if end < length uripath then
                     (case insertChildLoop (Node static [] numParams1 [] None 1 [] False)
                             numParams1 uripath abspath h end (Suc i) of
                        Inl e \<Rightarrow> Inl e
                      | Inr g \<Rightarrow>
                          Inr (Node (typo n1) (path n1) (nparams n1) (indices n1) (handle n1)
                                 (priority n1)
                                 [Node param (slice uripath offset1 end) numParams [] None 1
                                    [g] False]
                                 True))
                   else
                     (case insertChildLoop (Node param [] numParams [] None 1 [] False)
                             numParams1 uripath abspath h offset1 (Suc i) of
                        Inl e \<Rightarrow> Inl e
                      | Inr c \<Rightarrow>
                          Inr (Node (typo n1) (path n1) (nparams n1) (indices n1) (handle n1)
                                 (priority n1) [c] True)))
             else
               if end \<noteq> length uripath \<or> 1 < numParams then
                 Inl (Panic (''catch-all routes are only allowed at the end of the path in path ''
                             @ sq @ abspath @ sq))
               else if 0 < length (path n) \<and> last (path n) = CHR ''/'' then
                 Inl (Panic (''catch-all conflicts with existing handle for the path segment root in path ''
                             @ sq @ abspath @ sq))
               else if i = 0 then Inl IndexOutOfRange
               else if uripath ! (i - 1) \<noteq> CHR ''/'' then
                 Inl (Panic (''no / before catch-all in path '' @ sq @ abspath @ sq))
               else if i - 1 < offset then Inl IndexOutOfRange
               else
                 Inr (Node (typo n) (slice uripath offset (i - 1)) (nparams n)
                        [uripath ! (i - 1)] (handle n) (priority n)
                        [Node wildcard [] 1 [] None 1
                           [Node wildcard (drop (i - 1) uripath) 1 [] (Some h) 1 [] False]
                           True]
                        (wildcardChild n))))"
  by pat_completeness auto
termination
  by (relation "measure (\<lambda>(n, numParams, uripath, abspath, h, offset, i). length uripath - i)")
    auto

declare insertChildLoop.simps [simp del]

definition insertChild :: "'h node \<Rightarrow> 8 word \<Rightarrow> string \<Rightarrow> string \<Rightarrow> 'h \<Rightarrow> error + 'h node" where
  "insertChild n numParams uripath abspath h = insertChildLoop n numParams uripath abspath h 0 0"

text \<open>
  The edge split of \<open>register\<close>: the node keeps the common prefix and gets one static
  child that inherits the rest of the path, the children, the handle and the flags.
\<close>

definition splitEdge :: "'h node \<Rightarrow> nat \<Rightarrow> string \<Rightarrow> 'h node" where
  "splitEdge n i uripath =
     Node (typo n) (take i uripath) (nparams n) [path n ! i] None (priority n)
       [Node static (drop i (path n))
          (fold (\<lambda>c m. if m < nparams c then nparams c else m) (children n) 0)
          (indices n) (handle n) (priority n - 1) (children n) (wildcardChild n)]
       False"

definition raiseNparams :: "8 word \<Rightarrow> 'h node \<Rightarrow> 'h node" where
  "raiseNparams maxParams n =
     (if nparams n < maxParams
      then Node (typo n) (path n) maxParams (indices n) (handle n) (priority n) (children n)
             (wildcardChild n)
      else n)"

definition setChildren :: "'h node \<Rightarrow> 'h node list \<Rightarrow> 'h node" where
  "setChildren n cs =
     Node (typo n) (path n) (nparams n) (indices n) (handle n) (priority n) cs
       (wildcardChild n)"

text \<open>
  The position of the freshly appended child after \<open>incrementChildPriority\<close> was called
  at \<open>pos\<close>: the call moves the child at \<open>pos\<close>, which is the fresh one when \<open>indices\<close>
  and \<open>children\<close> have the same length.
\<close>

definition freshPos :: "nat \<Rightarrow> nat \<Rightarrow> nat \<Rightarrow> nat" where
  "freshPos len pos newPos = (if Suc pos = len then newPos else len - 1)"

text \<open>
  The loop \<open>walk\<close> of \<open>register\<close> on a non-empty tree. The caller has incremented the
  priority of \<open>n\<close> already. The Go code mutates the nodes in place; here each level
  returns its updated node, which the level above puts back among its children.
\<close>

function (sequential) walk ::
  "'h node \<Rightarrow> string \<Rightarrow> 8 word \<Rightarrow> string \<Rightarrow> 'h \<Rightarrow> error + 'h node" where
  "walk n uripath maxParams abspath h =
     (let n1 = raiseNparams maxParams n;
          i = lcp uripath (path n1);
          n2 = (if i < length (path n1) then splitEdge n1 i uripath else n1)
      in if i < length uripath then
           (let u = drop i uripath in
            if wildcardChild n2 then
              (case children n2 of
                 [] \<Rightarrow> Inl IndexOutOfRange
               | c0 # rest \<Rightarrow>
                   (let c1 = raiseNparams maxParams (bumpPriority c0) in
                    if length (path c1) \<le> length u \<and> path c1 = take (length (path c1)) u \<and>
                       (length u \<le> length (path c1) \<or> u ! length (path c1) = CHR ''/'')
                    then
                      (case walk c1 u (maxParams - 1) abspath h of
                         Inl e \<Rightarrow> Inl e
                       | Inr c2 \<Rightarrow> Inr (setChildren n2 (c2 # rest)))
                    else
                      Inl (Panic (''path segment '' @ sq @ u @ sq @
                                  '' conflicts with existing wildcard '' @ sq @ path c1 @ sq @
                                  '' in path '' @ sq @ abspath @ sq))))
            else if typo n2 = param \<and> hd u = CHR ''/'' \<and> length (children n2) = 1 then
              (case walk (bumpPriority (hd (children n2))) u maxParams abspath h of
                 Inl e \<Rightarrow> Inl e
               | Inr c2 \<Rightarrow> Inr (setChildren n2 [c2]))
            else
              (case indexByte (hd u) (indices n2) of
                 Some k \<Rightarrow>
                   (case incrementChildPriority n2 k of
                      Inl e \<Rightarrow> Inl e
                    | Inr (n3, k') \<Rightarrow>
                        (case walk (children n3 ! k') u maxParams abspath h of
                           Inl e \<Rightarrow> Inl e
                         | Inr c2 \<Rightarrow> Inr (setChildren n3 ((children n3)[k' := c2]))))
               | None \<Rightarrow>
                   if \<not> isWild (hd u) then
                     (let n3 = Node (typo n2) (path n2) (nparams n2) (indices n2 @ [hd u])
                                 (handle n2) (priority n2)
                                 (children n2 @ [Node static [] maxParams [] None 0 [] False])
                                 (wildcardChild n2)
                      in case incrementChildPriority n3 (length (indices n3) - 1) of
                           Inl e \<Rightarrow> Inl e
                         | Inr (n4, k') \<Rightarrow>
                             (let f = freshPos (length (children n3)) (length (indices n3) - 1) k'
                              in case insertChild (children n4 ! f) maxParams u abspath h of
                                   Inl e \<Rightarrow> Inl e
                                 | Inr c2 \<Rightarrow> Inr (setChildren n4 ((children n4)[f := c2]))))
                   else insertChild n2 maxParams u abspath h))
         else if i = length uripath then
           (if handle n2 \<noteq> None then
              Inl (Panic (''a handle is already registered for path '' @ sq @ abspath @ sq))
            else
              Inr (Node (typo n2) (path n2) (nparams n2) (indices n2) (Some h) (priority n2)
                     (children n2) (wildcardChild n2)))
         else Inr n2)"
  by pat_completeness auto


subsection \<open>Termination of the walk\<close>

lemma lcp_le: "lcp u p \<le> length u \<and> lcp u p \<le> length p"
  by (induction u p rule: lcp.induct) auto

lemma lcp_differ:
  "lcp u p < length u \<Longrightarrow> lcp u p < length p \<Longrightarrow> u ! lcp u p \<noteq> p ! lcp u p"
  by (induction u p rule: lcp.induct) auto

lemma nodes_sel: "nodes n = Suc (sum_list (map nodes (children n)))"
  by (cases n) simp

lemma raiseNparams_sel [simp]:
  "typo (raiseNparams m n) = typo n"
  "path (raiseNparams m n) = path n"
  "indices (raiseNparams m n) = indices n"
  "handle (raiseNparams m n) = handle n"
  "priority (raiseNparams m n) = priority n"
  "children (raiseNparams m n) = children n"
  "wildcardChild (raiseNparams m n) = wildcardChild n"
  by (simp_all add: raiseNparams_def)

lemma bumpPriority_sel [simp]:
  "typo (bumpPriority n) = typo n"
  "path (bumpPriority n) = path n"
  "nparams (bumpPriority n) = nparams n"
  "indices (bumpPriority n) = indices n"
  "handle (bumpPriority n) = handle n"
  "priority (bumpPriority n) = priority n + 1"
  "children (bumpPriority n) = children n"
  "wildcardChild (bumpPriority n) = wildcardChild n"
  by (simp_all add: bumpPriority_def)

lemma setChildren_sel [simp]:
  "typo (setChildren n cs) = typo n"
  "path (setChildren n cs) = path n"
  "nparams (setChildren n cs) = nparams n"
  "indices (setChildren n cs) = indices n"
  "handle (setChildren n cs) = handle n"
  "priority (setChildren n cs) = priority n"
  "children (setChildren n cs) = cs"
  "wildcardChild (setChildren n cs) = wildcardChild n"
  by (simp_all add: setChildren_def)

lemma splitEdge_sel [simp]:
  "typo (splitEdge n i u) = typo n"
  "path (splitEdge n i u) = take i u"
  "nparams (splitEdge n i u) = nparams n"
  "indices (splitEdge n i u) = [path n ! i]"
  "handle (splitEdge n i u) = None"
  "priority (splitEdge n i u) = priority n"
  "wildcardChild (splitEdge n i u) = False"
  "length (children (splitEdge n i u)) = 1"
  by (simp_all add: splitEdge_def)

lemma nodes_raiseNparams [simp]: "nodes (raiseNparams m n) = nodes n"
  by (simp add: nodes_sel)

lemma nodes_bumpPriority [simp]: "nodes (bumpPriority n) = nodes n"
  by (simp add: nodes_sel)

lemma nodes_nth_less: "k < length (children n) \<Longrightarrow> nodes (children n ! k) < nodes n"
proof -
  assume "k < length (children n)"
  then have "map nodes (children n) ! k \<le> sum_list (map nodes (children n))"
    by (intro elem_le_sum_list) simp
  with \<open>k < length (children n)\<close> show ?thesis
    by (simp add: nodes_sel [of n])
qed

lemma nodes_grandchild_less:
  assumes "children n = c # rest" "children c \<noteq> []"
  shows "nodes (hd (children c)) < nodes n"
proof -
  have "nodes (children c ! 0) < nodes c"
    using assms(2) by (intro nodes_nth_less) simp
  moreover have "nodes (children n ! 0) < nodes n"
    using assms(1) by (intro nodes_nth_less) simp
  ultimately show ?thesis
    using assms by (simp add: hd_conv_nth)
qed

lemma moveToFront_mset:
  "pos < length cs \<Longrightarrow> mset (fst (moveToFront cs pos prio)) = mset cs"
proof (induction cs pos prio rule: moveToFront.induct)
  case (1 cs prio)
  then show ?case by simp
next
  case (2 cs k prio)
  then show ?case
    by (simp add: mset_swap)
qed

lemma moveToFront_length [simp]: "length (fst (moveToFront cs pos prio)) = length cs"
  by (induction cs pos prio rule: moveToFront.induct) simp_all

lemma moveToFront_pos: "snd (moveToFront cs pos prio) \<le> pos"
  by (induction cs pos prio rule: moveToFront.induct) auto

lemma incrementChildPriority_nodes:
  assumes "incrementChildPriority n pos = Inr (n', k)"
  shows "k < length (children n') \<and> nodes n' = nodes n \<and> typo n' = typo n"
proof -
  from assms have pos: "pos < length (children n)"
    by (auto simp: incrementChildPriority_def split: if_splits)
  define cs0 where "cs0 = (children n)[pos := bumpPriority (children n ! pos)]"
  define r where "r = moveToFront cs0 pos (priority (cs0 ! pos))"
  have len: "length cs0 = length (children n)"
    by (simp add: cs0_def)
  have "map nodes cs0 = map nodes (children n)"
    using pos by (intro nth_equalityI) (auto simp: cs0_def nth_list_update)
  moreover have "mset (fst r) = mset cs0"
    unfolding r_def using pos len by (intro moveToFront_mset) simp
  ultimately have sum: "sum_list (map nodes (fst r)) = sum_list (map nodes (children n))"
    by (metis mset_map sum_mset_sum_list)
  have ch: "children n' = fst r" and k: "k = snd r" and ty: "typo n' = typo n"
    using assms pos
    by (auto simp: incrementChildPriority_def Let_def cs0_def r_def split: if_splits)
  have "snd r \<le> pos"
    unfolding r_def by (rule moveToFront_pos)
  then have "k < length (children n')"
    using pos len by (simp add: ch k r_def)
  then show ?thesis
    using sum ty by (simp add: nodes_sel [of n'] nodes_sel [of n] ch)
qed

lemma indexByte_Some: "indexByte c ix = Some k \<Longrightarrow> k < length ix \<and> ix ! k = c"
  by (induction ix arbitrary: k) (auto split: if_splits)

termination walk
proof (relation "measures [(\<lambda>(n, u, m, a, h). nodes n),
                           (\<lambda>(n, u, m, a, h). if typo n = param then 1 else 0)]",
       goal_cases)
  case 1
  show ?case by simp
next
  case (2 n uripath maxParams abspath h x xa xb xc x21 x22 xd)
  have nosplit: "\<not> xa < length (path x)"
  proof
    assume a: "xa < length (path x)"
    have "xb = splitEdge x xa uripath"
      using 2(3) a by simp
    then have "\<not> wildcardChild xb"
      by simp
    with 2(6) show False
      by simp
  qed
  have "xb = x"
    using 2(3) nosplit by simp
  moreover have "children x = children n"
    using 2(1) by simp
  ultimately have "children n = x21 # x22"
    using 2(7) by simp
  then have "nodes x21 < nodes n"
    using nodes_nth_less [of 0 n] by simp
  with 2(8) show ?case
    by simp
next
  case (3 n uripath maxParams abspath h x xa xb xc)
  show ?case
  proof (cases "xa < length (path x)")
    case True
    with 3 have "hd (children xb) =
        Node static (drop xa (path x))
          (fold (\<lambda>c m. if m < nparams c then nparams c else m) (children x) 0)
          (indices x) (handle x) (priority x - 1) (children x) (wildcardChild x)"
      by (simp add: splitEdge_def)
    then have "nodes (hd (children xb)) = nodes n" "typo (hd (children xb)) = static"
      using 3 by (simp_all add: nodes_sel [of n])
    moreover have "typo n = param"
      using 3 True by simp
    ultimately show ?thesis
      by simp
  next
    case False
    with 3 have "length (children n) = 1"
      by simp
    then have "nodes (children n ! 0) < nodes n"
      by (intro nodes_nth_less) simp
    moreover have "hd (children xb) = children n ! 0"
      using 3 False \<open>length (children n) = 1\<close>
      by (cases "children n") simp_all
    ultimately show ?thesis
      by simp
  qed
next
  case (4 n uripath maxParams abspath h x xa xb xc x2 b xd y)
  have nosplit: "\<not> xa < length (path x)"
  proof
    assume split: "xa < length (path x)"
    with 4 have "indexByte (hd xc) [path x ! xa] = Some x2"
      by simp
    then have "hd xc = path x ! xa"
      by (auto split: if_splits)
    moreover have "hd xc = uripath ! xa"
      using 4 by (simp add: hd_drop_conv_nth)
    ultimately show False
      using lcp_differ [of uripath "path x"] 4 split by simp
  qed
  with 4 have "incrementChildPriority x x2 = Inr (xd, y)"
    by simp
  then have "y < length (children xd)" "nodes xd = nodes x"
    using incrementChildPriority_nodes by blast+
  then have "nodes (children xd ! y) < nodes n"
    using nodes_nth_less [of y xd] 4 by simp
  then show ?case
    by simp
qed

declare walk.simps [simp del]

text \<open>
  \<open>register\<close>: the priority of the root is incremented first; an empty tree (no path
  and no children) becomes the root and takes the whole pattern.
\<close>

definition register :: "'h node \<Rightarrow> string \<Rightarrow> 'h \<Rightarrow> error + 'h node" where
  "register n uripath h =
     (let n0 = bumpPriority n;
          maxParams = countParams uripath
      in if 0 < length (path n0) \<or> 0 < length (children n0)
         then walk n0 uripath maxParams uripath h
         else insertChild
                (Node root (path n0) (nparams n0) (indices n0) (handle n0) (priority n0)
                   (children n0) (wildcardChild n0))
                maxParams uripath uripath h)"

text \<open>A tree built from the empty node by a sequence of registrations.\<close>

fun registerAll :: "'h node \<Rightarrow> (string \<times> 'h) list \<Rightarrow> error + 'h node" where
  "registerAll n [] = Inr n"
| "registerAll n ((p, h) # rs) =
     (case register n p h of Inl e \<Rightarrow> Inl e | Inr n' \<Rightarrow> registerAll n' rs)"

subsection \<open>Exact lookup\<close>

text \<open>
  The parameter slice of a lookup is nil (\<open>None\<close>) until the first wildcard is met,
  where it is made with the capacity \<open>nparams\<close> of that wildcard node; \<open>p[:i+1]\<close> beyond
  the capacity is a runtime panic.
\<close>

type_synonym pslice = "(nat \<times> Params) option"

definition paramsOf :: "pslice \<Rightarrow> Params" where
  "paramsOf p = (case p of None \<Rightarrow> [] | Some (c, ps) \<Rightarrow> ps)"

definition extendParams :: "pslice \<Rightarrow> nat \<Rightarrow> error + (nat \<times> Params)" where
  "extendParams p c =
     (let q = (case p of None \<Rightarrow> (c, []) | Some x \<Rightarrow> x)
      in if fst q < Suc (length (snd q)) then Inl IndexOutOfRange else Inr q)"

text \<open>
  The code after the \<open>switch\<close> of \<open>resolve\<close>: nothing was found, and a redirection is
  recommended for the remainder \<open>/\<close>, or when the node's path is the remainder plus a
  slash and the node has a handle.
\<close>

definition nothingFound :: "'h node \<Rightarrow> string \<Rightarrow> pslice \<Rightarrow> 'h option \<times> Params \<times> bool" where
  "nothingFound n uripath p =
     (if uripath = ''/'' then (None, paramsOf p, True)
      else if length (path n) = length uripath + 1 \<and> path n ! length uripath = CHR ''/'' \<and>
              uripath = take (length (path n) - 1) (path n) \<and> handle n \<noteq> None
           then (handle n, paramsOf p, True)
           else (None, paramsOf p, False))"

text \<open>
  The case \<open>uripath == n.path\<close> of \<open>resolve\<close>: the node's own handle, or a
  recommendation to redirect.
\<close>

definition exactMatch :: "'h node \<Rightarrow> string \<Rightarrow> pslice \<Rightarrow> error + ('h option \<times> Params \<times> bool)" where
  "exactMatch n uripath p =
     (if handle n \<noteq> None then Inr (handle n, paramsOf p, False)
      else if uripath = ''/'' \<and> wildcardChild n \<and> typo n \<noteq> root
           then Inr (None, paramsOf p, True)
      else
        (case indexByte CHR ''/'' (indices n) of
           Some k \<Rightarrow>
             if k < length (children n) then
               (let c = children n ! k in
                if length (path c) = 1 \<and> handle c \<noteq> None
                then Inr (handle c, paramsOf p, True)
                else if typo c = wildcard then
                  (case children c of
                     [] \<Rightarrow> Inl IndexOutOfRange
                   | g # rest \<Rightarrow>
                       if handle g \<noteq> None then Inr (handle g, paramsOf p, True)
                       else Inr (None, paramsOf p, False))
                else Inr (None, paramsOf p, False))
             else Inl IndexOutOfRange
         | None \<Rightarrow> Inr (None, paramsOf p, False)))"

text \<open>
  Saving the value of a \<open>param\<close> child \<open>c\<close>: the slice is made or extended, the value
  runs to the next \<open>/\<close> or to the end. The result is the end position and the slice.
\<close>

definition paramEnd :: "string \<Rightarrow> nat" where
  "paramEnd u = (case indexByte CHR ''/'' u of None \<Rightarrow> length u | Some e \<Rightarrow> e)"

definition saveParam :: "'h node \<Rightarrow> string \<Rightarrow> pslice \<Rightarrow> error + pslice" where
  "saveParam c u p =
     (case extendParams p (unat (nparams c)) of
        Inl e \<Rightarrow> Inl e
      | Inr (cap, ps) \<Rightarrow>
          if length (path c) < 1 then Inl IndexOutOfRange
          else Inr (Some (cap, ps @ [\<lparr>Key = drop 1 (path c), Value = take (paramEnd u) u\<rparr>])))"

text \<open>The value of a \<open>param\<close> child ends the path: its handle, or a recommendation.\<close>

definition paramLeaf :: "'h node \<Rightarrow> pslice \<Rightarrow> 'h option \<times> Params \<times> bool" where
  "paramLeaf c p1 =
     (if handle c \<noteq> None then (handle c, paramsOf p1, False)
      else if length (children c) = 1 \<and> path (hd (children c)) = ''/'' \<and>
              handle (hd (children c)) \<noteq> None
           then (handle (hd (children c)), paramsOf p1, True)
           else (None, paramsOf p1, False))"

text \<open>A catch-all child \<open>c\<close> takes the rest of the path.\<close>

definition catchAll :: "'h node \<Rightarrow> string \<Rightarrow> pslice \<Rightarrow> error + ('h option \<times> Params \<times> bool)" where
  "catchAll c u p =
     (case extendParams p (unat (nparams c)) of
        Inl e \<Rightarrow> Inl e
      | Inr (cap, ps) \<Rightarrow>
          if length (path c) < 2 then Inl IndexOutOfRange
          else Inr (handle c, ps @ [\<lparr>Key = drop 2 (path c), Value = drop 1 u\<rparr>], False))"

function (sequential) resolveWalk ::
  "'h node \<Rightarrow> string \<Rightarrow> pslice \<Rightarrow> error + ('h option \<times> Params \<times> bool)" where
  "resolveWalk n uripath p =
     (if length (path n) < length uripath then
        (if take (length (path n)) uripath = path n then
           (let u = drop (length (path n)) uripath in
            if \<not> wildcardChild n then
              (if u = ''/'' \<and> handle n \<noteq> None then Inr (handle n, paramsOf p, True)
               else
                 (case indexByte (hd u) (indices n) of
                    Some k \<Rightarrow>
                      if k < length (children n) then resolveWalk (children n ! k) u p
                      else Inl IndexOutOfRange
                  | None \<Rightarrow> Inr (None, paramsOf p, False)))
            else
              (case children n of
                 [] \<Rightarrow> Inl IndexOutOfRange
               | c # rest \<Rightarrow>
                   (case typo c of
                      param \<Rightarrow>
                        (case saveParam c u p of
                           Inl e \<Rightarrow> Inl e
                         | Inr p1 \<Rightarrow>
                             if paramEnd u < length u then
                               (if drop (paramEnd u) u = ''/'' \<and> handle c \<noteq> None
                                then Inr (handle c, paramsOf p1, True)
                                else if 0 < length (children c)
                                     then resolveWalk (hd (children c)) (drop (paramEnd u) u) p1
                                     else Inr (None, paramsOf p1, False))
                             else Inr (paramLeaf c p1))
                    | wildcard \<Rightarrow> catchAll c u p
                    | _ \<Rightarrow> Inl (Panic ''invalid node type''))))
         else Inr (nothingFound n uripath p))
      else if uripath = path n then exactMatch n uripath p
      else Inr (nothingFound n uripath p))"
  by pat_completeness auto
termination
proof (relation "measure (\<lambda>(n, u, p). nodes n)", goal_cases)
  case 1
  show ?case by simp
next
  case 2
  then show ?case
    by (simp add: nodes_nth_less)
next
  case 3
  then show ?case
    by (simp add: nodes_grandchild_less)
qed

declare resolveWalk.simps [simp del]

definition resolve :: "'h node \<Rightarrow> string \<Rightarrow> error + ('h option \<times> Params \<times> bool)" where
  "resolve n uripath = resolveWalk n uripath None"

text \<open>Registering a list of routes into the empty tree and looking a path up.\<close>

definition lookupAfter ::
  "(string \<times> 'h) list \<Rightarrow> string \<Rightarrow> error + ('h option \<times> Params \<times> bool)" where
  "lookupAfter rs q =
     (case registerAll emptyNode rs of Inl e \<Rightarrow> Inl e | Inr t \<Rightarrow> resolve t q)"

section \<open>Properties of the parameter container\<close>

lemma DefName_find:
  "DefName ps name =
     (case find (\<lambda>p. Key p = name) ps of None \<Rightarrow> ([], False) | Some p \<Rightarrow> (Value p, True))"
  by (induction ps) auto

text \<open>
  Claim C10. For every parameter sequence and every name, \<open>ByName\<close> returns the value of
  the first pair whose key equals the name, and the empty string when no pair has that
  key; \<open>DefName\<close> reports false exactly in that second case.
\<close>

theorem ByName_first_match:
  "ByName ps name =
     (case find (\<lambda>p. Key p = name) ps of None \<Rightarrow> [] | Some p \<Rightarrow> Value p) \<and>
   snd (DefName ps name) = (find (\<lambda>p. Key p = name) ps \<noteq> None)"
  by (simp add: ByName_def DefName_find split: option.split)

section \<open>Facts about the lookup\<close>











section \<open>A single catch-all route\<close>

lemma insertChildLoop_skip:
  assumes "\<forall>j. i \<le> j \<and> j < k \<longrightarrow> \<not> isWild (u ! j)" "i \<le> k" "k \<le> length u" "0 < np"
  shows "insertChildLoop n np u a h off i = insertChildLoop n np u a h off k"
  using assms
proof (induction "k - i" arbitrary: i)
  case 0
  then show ?case by simp
next
  case (Suc d)
  then have "i < length u" "\<not> isWild (u ! i)"
    by auto
  then have "insertChildLoop n np u a h off i = insertChildLoop n np u a h off (Suc i)"
    using \<open>0 < np\<close> by (subst insertChildLoop.simps) simp
  also have "\<dots> = insertChildLoop n np u a h off k"
    using Suc by (intro Suc.hyps(1)) auto
  finally show ?case .
qed







section \<open>A recommendation without a handle\<close>




section \<open>A route shadowed by its neighbour without the slash\<close>

text \<open>
  Claim C2, at the input where the code departs from it: with \<open>/name\<close> and \<open>/name/\<close>
  both registered, the lookup of \<open>/name/\<close> stops at the node of \<open>/name\<close> and returns
  that handle with a recommendation to redirect, not the handle of \<open>/name/\<close>.
\<close>

theorem roundtrip_shadowed:
  "registerAll emptyNode [(''/name'', 1::nat), (''/name/'', 2)] =
     Inr (Node root ''/name'' 0 ''/'' (Some 1) 2 [Node static ''/'' 0 [] (Some 2) 1 [] False] False) \<and>
   lookupAfter [(''/name'', 1::nat), (''/name/'', 2)] ''/name/'' = Inr (Some 1, [], True)"
  by code_simp

section \<open>Invariants of the tree\<close>

text \<open>A predicate holds at every node of a tree.\<close>

fun everyNode :: "('h node \<Rightarrow> bool) \<Rightarrow> 'h node \<Rightarrow> bool" where
  "everyNode P (Node t p np ix h pr cs w) =
     (P (Node t p np ix h pr cs w) \<and> list_all (everyNode P) cs)"

text \<open>The children are sorted by priority, highest first.\<close>

definition sortedChildren :: "'h node \<Rightarrow> bool" where
  "sortedChildren n = sorted_wrt (\<lambda>a b. priority b \<le> priority a) (children n)"

text \<open>
  \<open>indices\<close> as the spec words it: every static child at position \<open>i\<close> has the byte
  \<open>indices[i]\<close> as the first byte of its path.
\<close>

definition indexedAsStated :: "'h node \<Rightarrow> bool" where
  "indexedAsStated n =
     list_all (\<lambda>i. if typo (children n ! i) = static
                    then i < length (indices n) \<and> path (children n ! i) \<noteq> [] \<and>
                         indices n ! i = hd (path (children n ! i))
                    else True)
       [0..<length (children n)]"

text \<open>
  \<open>indices\<close> as the code keeps it: the children of a \<open>param\<close> node made by
  \<open>insertChild\<close> are not indexed, and a static child can have the empty path (the
  anchor of a catch-all); every other static child is indexed by its first byte.
\<close>

definition indexedStatic :: "'h node \<Rightarrow> bool" where
  "indexedStatic n =
     list_all (\<lambda>i. if typo (children n ! i) = static \<and> path (children n ! i) \<noteq> [] \<and>
                       typo n \<noteq> param
                    then i < length (indices n) \<and> indices n ! i = hd (path (children n ! i))
                    else True)
       [0..<length (children n)]"

text \<open>The flag \<open>wildcard\<close> of a node as the spec words it.\<close>

definition flagAsStated :: "'h node \<Rightarrow> bool" where
  "flagAsStated n =
     (wildcardChild n =
        (children n \<noteq> [] \<and>
         (typo (hd (children n)) = param \<or> typo (hd (children n)) = wildcard)))"

text \<open>
  The flag as the code keeps it: it is set on the parent of a \<open>param\<close> node and on
  the first of the two nodes of a catch-all, not on the parent of a catch-all.
\<close>

definition flagOfParam :: "'h node \<Rightarrow> bool" where
  "flagOfParam n =
     (wildcardChild n =
        (children n \<noteq> [] \<and>
         (typo (hd (children n)) = param \<or>
          (typo n = wildcard \<and> typo (hd (children n)) = wildcard))))"

text \<open>The number of \<open>:\<close> and \<open>*\<close> bytes of a pattern.\<close>

definition wcount :: "string \<Rightarrow> nat" where
  "wcount s = length (filter isWild s)"

text \<open>
  What \<open>register\<close> keeps true at a node: the order of the children and their
  priorities, the shape under a set flag, and the index bytes.
\<close>

definition prioOk :: "'h node \<Rightarrow> bool" where
  "prioOk n =
     (sorted_wrt (\<lambda>a b. priority b \<le> priority a) (children n) \<and>
      list_all (\<lambda>c. priority c \<le> priority n) (children n))"

definition flagOk :: "'h node \<Rightarrow> bool" where
  "flagOk n =
     (if wildcardChild n
      then indices n = [] \<and> length (children n) = 1 \<and>
           (typo (hd (children n)) = param \<or>
            (typo n = wildcard \<and> typo (hd (children n)) = wildcard \<and> path n = [])) \<and>
           list_ex isWild (path (hd (children n)))
      else list_all (\<lambda>c. typo c \<noteq> param \<and> \<not> (typo n = wildcard \<and> typo c = wildcard))
             (children n))"

definition indexOk :: "'h node \<Rightarrow> bool" where
  "indexOk n =
     (wildcardChild n \<or>
      (distinct (indices n) \<and>
       list_all2 (\<lambda>x c. path c = [] \<or> hd (path c) = x) (indices n) (children n)) \<or>
      (typo n = param \<and> indices n = [] \<and> length (children n) = 1))"

definition nodeOk :: "'h node \<Rightarrow> bool" where
  "nodeOk n = (prioOk n \<and> flagOk n \<and> indexOk n)"

section \<open>The invariant is kept by the registration\<close>

lemma everyNode_sel: "everyNode P n = (P n \<and> (\<forall>c\<in>set (children n). everyNode P c))"
  by (cases n) (simp add: list_all_iff)

lemma everyNode_mono: "(\<And>m. P m \<Longrightarrow> Q m) \<Longrightarrow> everyNode P n \<Longrightarrow> everyNode Q n"
  by (induction P n rule: everyNode.induct) (auto simp: list_all_iff)

subsection \<open>Moving a child to the front\<close>

text \<open>
  Where the element at position \<open>m\<close> comes from, after the element at \<open>pos\<close> moved
  to position \<open>j\<close>.
\<close>

definition rotIdx :: "nat \<Rightarrow> nat \<Rightarrow> nat \<Rightarrow> nat" where
  "rotIdx j pos m = (if m < j then m else if m = j then pos else if m \<le> pos then m - 1 else m)"

lemma moveToFront_nth:
  assumes "pos < length cs" "moveToFront cs pos prio = (cs', j)"
  shows "j \<le> pos \<and> length cs' = length cs \<and>
         (\<forall>m < length cs. cs' ! m = cs ! rotIdx j pos m) \<and>
         (\<forall>m. j \<le> m \<and> m < pos \<longrightarrow> priority (cs ! m) < prio) \<and>
         (0 < j \<longrightarrow> \<not> priority (cs ! (j - 1)) < prio)"
  using assms
proof (induction cs pos prio arbitrary: cs' j rule: moveToFront.induct)
  case (1 cs prio)
  then show ?case
    by (auto simp: rotIdx_def)
next
  case (2 cs k prio)
  show ?case
  proof (cases "priority (cs ! k) < prio")
    case False
    with 2 show ?thesis
      by (auto simp: rotIdx_def)
  next
    case True
    define sw where "sw = cs[k := cs ! Suc k, Suc k := cs ! k]"
    have mv: "moveToFront sw k prio = (cs', j)"
      using 2(3) True by (simp add: sw_def)
    have len: "k < length sw" "length sw = length cs"
      using 2(2) by (simp_all add: sw_def)
    note ih = "2.IH" [OF True len(1) [unfolded sw_def] mv [unfolded sw_def], folded sw_def]
    have j: "j \<le> k" and l: "length cs' = length cs"
      using ih len by simp_all
    have nth: "\<forall>m < length cs. cs' ! m = cs ! rotIdx j (Suc k) m"
    proof (intro allI impI)
      fix m assume m: "m < length cs"
      then have "cs' ! m = sw ! rotIdx j k m"
        using ih len by simp
      also have "\<dots> = cs ! rotIdx j (Suc k) m"
      proof -
        consider "m < j" | "m = j" | "j < m" "m \<le> k" | "m = Suc k" | "Suc k < m"
          by linarith
        then show ?thesis
          using j m 2(2) by cases (auto simp: rotIdx_def sw_def nth_list_update)
      qed
      finally show "cs' ! m = cs ! rotIdx j (Suc k) m" .
    qed
    have low: "\<forall>m. j \<le> m \<and> m < Suc k \<longrightarrow> priority (cs ! m) < prio"
    proof (intro allI impI)
      fix m assume m: "j \<le> m \<and> m < Suc k"
      show "priority (cs ! m) < prio"
      proof (cases "m = k")
        case True
        then show ?thesis using \<open>priority (cs ! k) < prio\<close> by simp
      next
        case False
        then have "priority (sw ! m) < prio"
          using ih m by auto
        then show ?thesis
          using False m 2(2) by (simp add: sw_def nth_list_update)
      qed
    qed
    have "0 < j \<longrightarrow> \<not> priority (sw ! (j - 1)) < prio"
      using ih by simp
    then have up: "0 < j \<longrightarrow> \<not> priority (cs ! (j - 1)) < prio"
      using j 2(2) by (auto simp: sw_def nth_list_update)
    show ?thesis
      using j l nth low up by simp
  qed
qed

lemma rotIdx_less: "j \<le> pos \<Longrightarrow> pos < len \<Longrightarrow> m < len \<Longrightarrow> rotIdx j pos m < len"
  by (auto simp: rotIdx_def)

lemma rotIdx_inj:
  "j \<le> pos \<Longrightarrow> rotIdx j pos a = rotIdx j pos b \<Longrightarrow> a = b"
  by (auto simp: rotIdx_def split: if_splits)

lemma rotIdx_at: "j \<le> pos \<Longrightarrow> rotIdx j pos j = pos"
  by (simp add: rotIdx_def)

lemma rotIdx_same: "rotIdx pos pos m = m"
  by (simp add: rotIdx_def)

lemma length_slice: "length (slice xs a b) = min (b - a) (length xs - a)"
  by (simp add: slice_def)

lemma rot_list_nth:
  assumes "j \<le> pos" "pos < length xs" "m < length xs"
  shows "(take j xs @ xs ! pos # slice xs j pos @ drop (Suc pos) xs) ! m = xs ! rotIdx j pos m"
proof -
  consider "m < j" | "m = j" | "j < m" "m \<le> pos" | "pos < m"
    by linarith
  then show ?thesis
    using assms
    by cases (auto simp: rotIdx_def slice_def nth_append min_def)
qed

lemma rot_list_length:
  "j \<le> pos \<Longrightarrow> pos < length xs \<Longrightarrow>
   length (take j xs @ xs ! pos # slice xs j pos @ drop (Suc pos) xs) = length xs"
  by (simp add: slice_def)

subsection \<open>Priorities are 32-bit words\<close>

lemma word_bump: "(a::32 word) < b \<Longrightarrow> a < a + 1 \<and> a + 1 \<le> b"
  by unat_arith

lemma word_pred: "(a::32 word) < b \<Longrightarrow> a \<le> b - 1 \<and> b - 1 < b"
  by unat_arith

lemma unat_countParams: "wcount p \<le> 255 \<Longrightarrow> unat (countParams p) = wcount p"
  by (simp add: countParams_def wcount_def unat_of_nat)

lemma unat_pred8: "0 < (m::8 word) \<Longrightarrow> unat (m - 1) = unat m - 1"
  by unat_arith

subsection \<open>Incrementing the priority of a child\<close>

lemma nodeOk_parallel:
  assumes "nodeOk n" "\<not> wildcardChild n" "length (indices n) = length (children n)"
  shows "distinct (indices n)"
    and "list_all2 (\<lambda>x c. path c = [] \<or> hd (path c) = x) (indices n) (children n)"
  using assms by (auto simp: nodeOk_def indexOk_def)

lemma incrementChildPriority_ok:
  assumes inc: "incrementChildPriority n pos = Inr (n3, k')"
    and ok: "nodeOk n"
    and strict: "\<forall>c\<in>set (children n). priority c < priority n"
    and nf: "\<not> wildcardChild n"
    and par: "length (indices n) = length (children n)"
  shows "nodeOk n3 \<and> k' < length (children n3) \<and>
         children n3 ! k' = bumpPriority (children n ! pos) \<and>
         (\<forall>c\<in>set (children n3). c = bumpPriority (children n ! pos) \<or> c \<in> set (children n)) \<and>
         typo n3 = typo n \<and> priority n3 = priority n \<and> path n3 = path n \<and>
         \<not> wildcardChild n3 \<and>
         length (indices n3) = length (children n3) \<and> indices n3 ! k' = indices n ! pos"
proof -
  define cs where "cs = children n"
  define ix where "ix = indices n"
  define b where "b = bumpPriority (cs ! pos)"
  define cs0 where "cs0 = cs[pos := b]"
  define cs1 where "cs1 = fst (moveToFront cs0 pos (priority b))"
  define j where "j = snd (moveToFront cs0 pos (priority b))"
  have pos: "pos < length cs"
    using inc by (auto simp: incrementChildPriority_def cs_def split: if_splits)
  have posix: "pos < length ix"
    using pos par by (simp add: cs_def ix_def)
  have b0: "cs0 ! pos = b" "length cs0 = length cs"
    using pos by (simp_all add: cs0_def)
  have mv: "moveToFront cs0 pos (priority b) = (cs1, j)"
    by (simp add: cs1_def j_def)
  have mtf: "j \<le> pos" "length cs1 = length cs"
    "\<And>m. m < length cs \<Longrightarrow> cs1 ! m = cs0 ! rotIdx j pos m"
    "\<And>m. j \<le> m \<Longrightarrow> m < pos \<Longrightarrow> priority (cs0 ! m) < priority b"
    "0 < j \<Longrightarrow> \<not> priority (cs0 ! (j - 1)) < priority b"
    using moveToFront_nth [OF _ mv] pos b0 by auto
  define ix1 where "ix1 = (if j \<noteq> pos
      then take j ix @ [ix ! pos] @ slice ix j pos @ drop (Suc pos) ix else ix)"
  have n3: "n3 = Node (typo n) (path n) (nparams n) ix1 (handle n) (priority n) cs1
                   (wildcardChild n)"
    and k': "k' = j"
    using inc pos posix
    by (auto simp: incrementChildPriority_def Let_def cs_def ix_def b_def cs0_def cs1_def
        j_def ix1_def split: if_splits)
  have ix1: "length ix1 = length ix" "\<And>m. m < length ix \<Longrightarrow> ix1 ! m = ix ! rotIdx j pos m"
    using mtf(1) posix
    by (auto simp: ix1_def rot_list_nth length_slice rotIdx_same)
  have sorted: "\<And>a c. a \<le> c \<Longrightarrow> c < length cs \<Longrightarrow> priority (cs ! c) \<le> priority (cs ! a)"
  proof -
    fix a c assume "a \<le> c" "c < length cs"
    moreover have "sorted_wrt (\<lambda>a b. priority b \<le> priority a) cs"
      using ok by (simp add: nodeOk_def prioOk_def cs_def)
    ultimately show "priority (cs ! c) \<le> priority (cs ! a)"
      by (cases "a = c") (auto simp: sorted_wrt_iff_nth_less)
  qed
  have lt: "priority (cs ! pos) < priority n"
    using strict pos by (simp add: cs_def)
  have pb: "priority b = priority (cs ! pos) + 1"
    by (simp add: b_def)
  have bump: "priority (cs ! pos) < priority b" "priority b \<le> priority n"
    using word_bump [OF lt] pb by simp_all
  have pr0: "\<And>m. m < length cs \<Longrightarrow>
      priority (cs0 ! m) = (if m = pos then priority b else priority (cs ! m))"
    using pos by (simp add: cs0_def nth_list_update)
  have p1a: "\<And>m. m < j \<Longrightarrow> priority (cs1 ! m) = priority (cs ! m)"
  proof -
    fix m assume m: "m < j"
    then have "m < length cs" "m \<noteq> pos" "rotIdx j pos m = m"
      using mtf(1) pos by (auto simp: rotIdx_def)
    then show "priority (cs1 ! m) = priority (cs ! m)"
      using mtf(3) [of m] pr0 [of m] by simp
  qed
  have p1b: "priority (cs1 ! j) = priority b"
  proof -
    have "j < length cs" "rotIdx j pos j = pos"
      using mtf(1) pos by (auto simp: rotIdx_def)
    then show ?thesis
      using mtf(3) [of j] b0 by simp
  qed
  have p1c: "\<And>m. j < m \<Longrightarrow> m \<le> pos \<Longrightarrow> priority (cs1 ! m) = priority (cs ! (m - 1))"
  proof -
    fix m assume m: "j < m" "m \<le> pos"
    then have "m < length cs" "m - 1 \<noteq> pos" "m - 1 < length cs" "rotIdx j pos m = m - 1"
      using mtf(1) pos by (auto simp: rotIdx_def)
    then show "priority (cs1 ! m) = priority (cs ! (m - 1))"
      using mtf(3) [of m] pr0 [of "m - 1"] by simp
  qed
  have p1d: "\<And>m. pos < m \<Longrightarrow> m < length cs \<Longrightarrow> priority (cs1 ! m) = priority (cs ! m)"
  proof -
    fix m assume m: "pos < m" "m < length cs"
    then have "m \<noteq> pos" "rotIdx j pos m = m"
      using mtf(1) pos by (auto simp: rotIdx_def)
    then show "priority (cs1 ! m) = priority (cs ! m)"
      using mtf(3) [of m] pr0 [of m] m by simp
  qed
  have high: "\<And>m. m < j \<Longrightarrow> priority b \<le> priority (cs ! m)"
  proof -
    fix m assume m: "m < j"
    then have "\<not> priority (cs0 ! (j - 1)) < priority b"
      using mtf(5) by simp
    moreover have "j - 1 < pos" "j - 1 < length cs"
      using m mtf(1) pos by linarith+
    then have "priority (cs0 ! (j - 1)) = priority (cs ! (j - 1))"
      by (simp add: pr0)
    moreover have "priority (cs ! (j - 1)) \<le> priority (cs ! m)"
      using m mtf(1) pos by (intro sorted) simp_all
    ultimately show "priority b \<le> priority (cs ! m)"
      by (simp add: not_less)
  qed
  have low: "\<And>m. j \<le> m \<Longrightarrow> m < pos \<Longrightarrow> priority (cs ! m) \<le> priority b"
  proof -
    fix m assume m: "j \<le> m" "m < pos"
    then have "priority (cs0 ! m) < priority b" "m < length cs" "m \<noteq> pos"
      using mtf(4) [OF m] pos by simp_all
    then show "priority (cs ! m) \<le> priority b"
      by (simp add: pr0 less_imp_le)
  qed
  have after: "\<And>m. pos \<le> m \<Longrightarrow> m < length cs \<Longrightarrow> priority (cs ! m) \<le> priority b"
  proof -
    fix m assume m: "pos \<le> m" "m < length cs"
    then have "priority (cs ! m) \<le> priority (cs ! pos)"
      by (intro sorted) simp_all
    then show "priority (cs ! m) \<le> priority b"
      using bump(1) by simp
  qed
  have sorted1: "sorted_wrt (\<lambda>a b. priority b \<le> priority a) cs1"
    unfolding sorted_wrt_iff_nth_less
  proof (intro allI impI)
    fix a c assume ac: "a < c" "c < length cs1"
    then have a: "a < length cs" and c: "c < length cs"
      using mtf(2) by simp_all
    consider "c < j" | "c = j" | "j < c" "c \<le> pos" | "pos < c"
      by linarith
    then show "priority (cs1 ! c) \<le> priority (cs1 ! a)"
    proof cases
      case 1
      then show ?thesis
        using ac c p1a [of a] p1a [of c] sorted [of a c] by simp
    next
      case 2
      then show ?thesis
        using ac p1a [of a] p1b high [of a] by simp
    next
      case 3
      consider "a < j" | "a = j" | "j < a"
        by linarith
      then show ?thesis
      proof cases
        case 1
        then show ?thesis
          using 3 ac c p1a [of a] p1c [of c] sorted [of a "c - 1"] by simp
      next
        case 2
        then show ?thesis
          using 3 ac c p1b p1c [of c] low [of "c - 1"] by simp
      next
        case j3: 3
        then show ?thesis
          using 3 ac c p1c [of a] p1c [of c] sorted [of "a - 1" "c - 1"] by simp
      qed
    next
      case 4
      consider "a < j" | "a = j" | "j < a" "a \<le> pos" | "pos < a"
        by linarith
      then show ?thesis
      proof cases
        case 1
        then show ?thesis
          using 4 ac c p1a [of a] p1d [of c] sorted [of a c] by simp
      next
        case 2
        then show ?thesis
          using 4 ac c p1b p1d [of c] after [of c] by simp
      next
        case 3
        then show ?thesis
          using 4 ac c p1c [of a] p1d [of c] sorted [of "a - 1" c] by simp
      next
        case a4: 4
        then show ?thesis
          using 4 ac c p1d [of a] p1d [of c] sorted [of a c] by simp
      qed
    qed
  qed
  have members: "\<forall>c\<in>set cs1. c = b \<or> c \<in> set cs"
  proof
    fix c assume "c \<in> set cs1"
    then obtain m where m: "m < length cs1" "c = cs1 ! m"
      by (auto simp: in_set_conv_nth)
    then have "c = cs0 ! rotIdx j pos m" "rotIdx j pos m < length cs"
      using mtf pos by (simp_all add: rotIdx_less)
    then show "c = b \<or> c \<in> set cs"
      using pos by (cases "rotIdx j pos m = pos") (auto simp: cs0_def nth_list_update)
  qed
  have same: "\<And>c. c \<in> set cs1 \<Longrightarrow> \<exists>d\<in>set cs. typo c = typo d \<and> path c = path d"
  proof -
    fix c assume "c \<in> set cs1"
    then have "c = b \<or> c \<in> set cs"
      using members by blast
    then show "\<exists>d\<in>set cs. typo c = typo d \<and> path c = path d"
      using pos by (auto simp: b_def intro: bexI [of _ "cs ! pos"])
  qed
  have prio_all: "list_all (\<lambda>c. priority c \<le> priority n) cs1"
    unfolding list_all_iff
  proof
    fix c assume "c \<in> set cs1"
    then have "c = b \<or> c \<in> set cs"
      using members by blast
    then show "priority c \<le> priority n"
      using bump(2) strict by (auto simp: cs_def less_imp_le)
  qed
  have flag: "flagOk n3"
  proof -
    have "list_all (\<lambda>c. typo c \<noteq> param \<and> \<not> (typo n = wildcard \<and> typo c = wildcard)) cs"
      using ok nf by (simp add: nodeOk_def flagOk_def cs_def)
    then have "list_all (\<lambda>c. typo c \<noteq> param \<and> \<not> (typo n = wildcard \<and> typo c = wildcard)) cs1"
      unfolding list_all_iff using same by metis
    then show ?thesis
      using nf by (simp add: flagOk_def n3)
  qed
  have index: "indexOk n3"
  proof -
    have d: "distinct ix" and l2: "list_all2 (\<lambda>x c. path c = [] \<or> hd (path c) = x) ix cs"
      using nodeOk_parallel [OF ok nf par] by (simp_all add: ix_def cs_def)
    have len: "length ix = length cs"
      using par by (simp add: ix_def cs_def)
    have "distinct ix1"
      unfolding distinct_conv_nth
    proof (intro allI impI)
      fix a c assume "a < length ix1" "c < length ix1" "a \<noteq> c"
      then have "rotIdx j pos a \<noteq> rotIdx j pos c" "rotIdx j pos a < length ix"
        "rotIdx j pos c < length ix" "ix1 ! a = ix ! rotIdx j pos a" "ix1 ! c = ix ! rotIdx j pos c"
        using mtf(1) posix ix1 rotIdx_inj [of j pos a c] by (auto simp: rotIdx_less)
      then show "ix1 ! a \<noteq> ix1 ! c"
        using d by (simp add: nth_eq_iff_index_eq)
    qed
    moreover have "list_all2 (\<lambda>x c. path c = [] \<or> hd (path c) = x) ix1 cs1"
      unfolding list_all2_conv_all_nth
    proof (intro conjI allI impI)
      show "length ix1 = length cs1"
        using ix1 mtf len by simp
    next
      fix m assume "m < length ix1"
      then have m: "m < length cs" and r: "rotIdx j pos m < length cs"
        using ix1 len mtf(1) pos by (simp_all add: rotIdx_less)
      have "path (cs0 ! rotIdx j pos m) = path (cs ! rotIdx j pos m)"
        using pos r by (cases "rotIdx j pos m = pos") (simp_all add: cs0_def b_def)
      moreover have "path (cs ! rotIdx j pos m) = [] \<or>
          hd (path (cs ! rotIdx j pos m)) = ix ! rotIdx j pos m"
        using l2 r by (simp add: list_all2_conv_all_nth)
      ultimately show "path (cs1 ! m) = [] \<or> hd (path (cs1 ! m)) = ix1 ! m"
        using mtf(3) [OF m] ix1(2) m len by simp
    qed
    ultimately show ?thesis
      by (simp add: indexOk_def n3)
  qed
  have "nodeOk n3"
    using sorted1 prio_all flag index by (simp add: nodeOk_def prioOk_def n3)
  moreover have "k' < length (children n3)"
    using k' mtf pos by (simp add: n3)
  moreover have "children n3 ! k' = bumpPriority (children n ! pos)"
    using k' mtf pos b0 by (simp add: n3 rotIdx_at b_def cs_def)
  moreover have "\<forall>c\<in>set (children n3). c = bumpPriority (children n ! pos) \<or> c \<in> set (children n)"
    using members by (simp add: n3 b_def cs_def)
  moreover have "indices n3 ! k' = indices n ! pos"
    using k' ix1 mtf(1) posix by (simp add: n3 rotIdx_at ix_def)
  moreover have "length (indices n3) = length (children n3)"
    using ix1 mtf par by (simp add: n3 ix_def cs_def)
  ultimately show ?thesis
    using nf by (simp add: n3)
qed

subsection \<open>Nodes that differ in fields the invariant does not read\<close>

lemma nodeOk_fields:
  assumes "typo m = typo n" "path m = path n" "indices m = indices n" "priority m = priority n"
    "children m = children n" "wildcardChild m = wildcardChild n"
  shows "nodeOk m = nodeOk n"
  using assms by (simp add: nodeOk_def prioOk_def flagOk_def indexOk_def)

lemma nodeOk_raiseNparams [simp]: "nodeOk (raiseNparams m n) = nodeOk n"
  by (rule nodeOk_fields) simp_all

lemma everyNode_raiseNparams [simp]:
  "everyNode nodeOk (raiseNparams m n) = everyNode nodeOk n"
  by (simp add: everyNode_sel [of _ "raiseNparams m n"] everyNode_sel [of _ n])

lemma nodeOk_bump:
  assumes "nodeOk c" "priority c < pr"
  shows "nodeOk (bumpPriority c)"
proof -
  have "priority c \<le> priority c + 1"
    using word_bump [OF assms(2)] by (simp add: less_imp_le)
  then have "\<And>d. priority d \<le> priority c \<Longrightarrow> priority d \<le> priority c + 1"
    by (rule order_trans [rotated])
  then show ?thesis
    using assms(1) by (auto simp: nodeOk_def prioOk_def flagOk_def indexOk_def list_all_iff)
qed

lemma everyNode_bump:
  assumes "everyNode nodeOk c" "priority c < pr"
  shows "everyNode nodeOk (bumpPriority c)"
  using assms nodeOk_bump [of c pr]
  by (simp add: everyNode_sel [of _ "bumpPriority c"] everyNode_sel [of _ c])

lemma strict_bump:
  assumes "nodeOk c" "priority c < pr"
  shows "\<forall>d\<in>set (children (bumpPriority c)). priority d < priority (bumpPriority c)"
proof
  fix d assume "d \<in> set (children (bumpPriority c))"
  then have "priority d \<le> priority c"
    using assms(1) by (simp add: nodeOk_def prioOk_def list_all_iff)
  moreover have "priority c < priority c + 1"
    using word_bump [OF assms(2)] by simp
  ultimately show "priority d < priority (bumpPriority c)"
    by simp
qed

lemma bump_positive: "priority c < pr \<Longrightarrow> 0 < priority (bumpPriority c)"
proof -
  assume "priority c < pr"
  then have "priority c < priority c + 1"
    using word_bump by blast
  then show ?thesis
    by (simp add: word_gt_0) (metis word_not_simps(1))
qed

subsection \<open>Replacing a child by its updated version\<close>

lemma replace_child:
  assumes ok: "nodeOk n" and k: "k < length (children n)"
    and pr: "priority c2 = priority (children n ! k)"
    and ty: "typo c2 = typo (children n ! k)"
    and pf: "wildcardChild n \<longrightarrow> path c2 = path (children n ! k)"
    and pi: "\<not> wildcardChild n \<longrightarrow> k < length (indices n) \<longrightarrow>
             path c2 = [] \<or> hd (path c2) = indices n ! k"
  shows "nodeOk (setChildren n ((children n)[k := c2]))"
proof -
  define cs where "cs = children n"
  define cs' where "cs' = cs[k := c2]"
  have mp: "map priority cs' = map priority cs" and mt: "map typo cs' = map typo cs"
    using k pr ty by (simp_all add: cs'_def cs_def map_update list_update_same_conv)
  have "sorted_wrt (\<lambda>a b. priority b \<le> priority a) cs' =
        sorted_wrt (\<lambda>x y. y \<le> x) (map priority cs')"
    by (simp add: sorted_wrt_map)
  also have "\<dots> = sorted_wrt (\<lambda>a b. priority b \<le> priority a) cs"
    by (simp add: mp sorted_wrt_map)
  finally have s: "sorted_wrt (\<lambda>a b. priority b \<le> priority a) cs'"
    using ok by (simp add: nodeOk_def prioOk_def cs_def)
  have "list_all (\<lambda>c. priority c \<le> priority n) cs' =
        list_all (\<lambda>x. x \<le> priority n) (map priority cs')"
    by (simp add: list_all_iff)
  also have "\<dots> = list_all (\<lambda>c. priority c \<le> priority n) cs"
    by (simp add: mp list_all_iff)
  finally have p: "list_all (\<lambda>c. priority c \<le> priority n) cs'"
    using ok by (simp add: nodeOk_def prioOk_def cs_def)
  have f: "flagOk (setChildren n cs')"
  proof (cases "wildcardChild n")
    case True
    then have one: "length cs = 1" and k0: "k = 0"
      using ok k by (simp_all add: nodeOk_def flagOk_def cs_def)
    then have "cs' = [c2]" "hd cs = cs ! 0"
      by (cases cs; simp add: cs'_def)+
    then show ?thesis
      using ok True pf ty one k0 by (simp add: nodeOk_def flagOk_def cs_def)
  next
    case False
    have "list_all (\<lambda>c. typo c \<noteq> param \<and> \<not> (typo n = wildcard \<and> typo c = wildcard)) cs' =
          list_all (\<lambda>t. t \<noteq> param \<and> \<not> (typo n = wildcard \<and> t = wildcard)) (map typo cs')"
      by (simp add: list_all_iff)
    also have "\<dots> =
          list_all (\<lambda>c. typo c \<noteq> param \<and> \<not> (typo n = wildcard \<and> typo c = wildcard)) cs"
      by (simp add: mt list_all_iff)
    finally show ?thesis
      using ok False by (simp add: nodeOk_def flagOk_def cs_def)
  qed
  have i: "indexOk (setChildren n cs')"
  proof (cases "wildcardChild n")
    case True
    then show ?thesis by (simp add: indexOk_def)
  next
    case False
    then consider
      (par) "distinct (indices n)"
        "list_all2 (\<lambda>x c. path c = [] \<or> hd (path c) = x) (indices n) cs"
      | (exc) "typo n = param" "indices n = []" "length cs = 1"
      using ok by (auto simp: nodeOk_def indexOk_def cs_def)
    then show ?thesis
    proof cases
      case par
      then have "length (indices n) = length cs"
        by (simp add: list_all2_lengthD)
      then have "path c2 = [] \<or> hd (path c2) = indices n ! k"
        using pi False k by (simp add: cs_def)
      then have "list_all2 (\<lambda>x c. path c = [] \<or> hd (path c) = x) (indices n) cs'"
        unfolding list_all2_conv_all_nth cs'_def
      proof (intro conjI allI impI)
        show "length (indices n) = length (cs[k := c2])"
          using \<open>length (indices n) = length cs\<close> by simp
      next
        fix m assume m: "m < length (indices n)"
        show "path (cs[k := c2] ! m) = [] \<or> hd (path (cs[k := c2] ! m)) = indices n ! m"
        proof (cases "m = k")
          case True
          then show ?thesis
            using \<open>path c2 = [] \<or> hd (path c2) = indices n ! k\<close> k by (simp add: cs_def)
        next
          case False
          then show ?thesis
            using par(2) m by (simp add: list_all2_conv_all_nth)
        qed
      qed
      then show ?thesis
        using par(1) by (simp add: indexOk_def)
    next
      case exc
      then show ?thesis
        by (simp add: indexOk_def cs'_def)
    qed
  qed
  show ?thesis
    using s p f i by (simp add: nodeOk_def prioOk_def cs'_def cs_def)
qed

subsection \<open>Splitting an edge\<close>

lemma lcp_take: "take (lcp u p) u = take (lcp u p) p"
  by (induction u p rule: lcp.induct) auto

lemma lcp_prefix: "take (length p) u = p \<Longrightarrow> lcp u p = length p"
  by (induction u p rule: lcp.induct) auto

lemma splitEdge_ok:
  assumes ok: "nodeOk n"
    and ch: "\<forall>c\<in>set (children n). everyNode nodeOk c \<and> priority c < priority n"
    and pos: "0 < priority n" and i: "i < length (path n)" and np: "typo n \<noteq> param"
  shows "nodeOk (splitEdge n i u) \<and>
         (\<forall>c\<in>set (children (splitEdge n i u)). everyNode nodeOk c \<and> priority c < priority n)"
proof -
  define child where "child = Node static (drop i (path n))
          (fold (\<lambda>c m. if m < nparams c then nparams c else m) (children n) 0)
          (indices n) (handle n) (priority n - 1) (children n) (wildcardChild n)"
  have sp: "splitEdge n i u =
      Node (typo n) (take i u) (nparams n) [path n ! i] None (priority n) [child] False"
    by (simp add: splitEdge_def child_def)
  have pm: "priority n - 1 < priority n"
    using pos by unat_arith
  have le: "\<And>c. c \<in> set (children n) \<Longrightarrow> priority c \<le> priority n - 1"
    using ch word_pred by blast
  have pne: "path n \<noteq> []"
    using i by auto
  have "prioOk child"
    using ok le by (simp add: nodeOk_def prioOk_def child_def list_all_iff)
  moreover have "flagOk child"
    using ok pne by (auto simp: nodeOk_def flagOk_def child_def list_all_iff)
  moreover have "indexOk child"
    using ok np by (auto simp: nodeOk_def indexOk_def child_def)
  ultimately have "nodeOk child"
    by (simp add: nodeOk_def)
  then have c1: "everyNode nodeOk child"
    using ch by (simp add: everyNode_sel [of _ child]) (simp add: child_def)
  have "hd (drop i (path n)) = path n ! i"
    using i by (simp add: hd_drop_conv_nth)
  then have "nodeOk (splitEdge n i u)"
    using pm by (simp add: sp nodeOk_def prioOk_def flagOk_def indexOk_def child_def less_imp_le)
  then show ?thesis
    using c1 pm by (simp add: sp) (simp add: child_def)
qed

subsection \<open>Inserting the rest of a pattern below a node\<close>

lemma findEnd_Inr:
  "findEnd u e = Inr end \<Longrightarrow> e \<le> length u \<Longrightarrow>
   e \<le> end \<and> end \<le> length u \<and> (\<forall>j. e \<le> j \<and> j < end \<longrightarrow> \<not> isWild (u ! j))"
proof (induction u e rule: findEnd.induct)
  case (1 u e)
  show ?case
  proof (cases "e < length u \<and> u ! e \<noteq> CHR ''/''")
    case False
    then have "findEnd u e = Inr e"
      by (subst findEnd.simps) auto
    with "1.prems" show ?thesis by auto
  next
    case True
    show ?thesis
    proof (cases "isWild (u ! e)")
      case w: True
      then have "findEnd u e = Inl ()"
        using True by (subst findEnd.simps) simp
      with "1.prems" show ?thesis by simp
    next
      case w: False
      then have "findEnd u e = findEnd u (Suc e)"
        using True by (subst findEnd.simps) simp
      then have "Suc e \<le> end \<and> end \<le> length u \<and>
                 (\<forall>j. Suc e \<le> j \<and> j < end \<longrightarrow> \<not> isWild (u ! j))"
        using "1.IH" [OF True w] "1.prems" True by simp
      then show ?thesis
        using w by (metis Suc_leD Suc_leI le_neq_implies_less)
    qed
  qed
qed

lemma insertChildLoop_runs_out:
  assumes "\<forall>j. i \<le> j \<and> j < length u \<longrightarrow> \<not> isWild (u ! j)" "0 < np" "i \<le> length u"
  shows "insertChildLoop n np u a h off i = Inl IndexOutOfRange"
proof -
  have "insertChildLoop n np u a h off i = insertChildLoop n np u a h off (length u)"
    using assms by (intro insertChildLoop_skip) auto
  also have "\<dots> = Inl IndexOutOfRange"
    using assms(2) by (subst insertChildLoop.simps) simp
  finally show ?thesis .
qed

lemma nodeOk_leaf:
  "children n = [] \<Longrightarrow> \<not> wildcardChild n \<Longrightarrow> indices n = [] \<Longrightarrow> everyNode nodeOk n"
  by (simp add: everyNode_sel [of _ n] nodeOk_def prioOk_def flagOk_def indexOk_def)

lemma word_one_le: "0 < (x::32 word) \<Longrightarrow> 1 \<le> x"
  by unat_arith

lemma slice_head:
  "path' = slice u off k \<Longrightarrow> k \<le> length u \<Longrightarrow> path' = [] \<or> (off < length u \<and> hd path' = u ! off)"
  by (cases "off < k") (auto simp: slice_def hd_drop_conv_nth)

lemma drop_head: "drop off u = [] \<or> (off < length u \<and> hd (drop off u) = u ! off)"
  by (cases "off < length u") (auto simp: hd_drop_conv_nth)

lemma slice_wild:
  "i < length u \<Longrightarrow> i < end \<Longrightarrow> isWild (u ! i) \<Longrightarrow> list_ex isWild (slice u i end)"
proof -
  assume a: "i < length u" "i < end" "isWild (u ! i)"
  then have "slice u i end \<noteq> []" "hd (slice u i end) = u ! i"
    by (auto simp: slice_def hd_drop_conv_nth)
  then have "u ! i \<in> set (slice u i end)"
    by (metis hd_in_set)
  then show ?thesis
    using a(3) by (auto simp: list_ex_iff)
qed

lemma drop_wild:
  "k \<le> i \<Longrightarrow> i < length u \<Longrightarrow> isWild (u ! i) \<Longrightarrow> list_ex isWild (drop k u)"
proof -
  assume a: "k \<le> i" "i < length u" "isWild (u ! i)"
  then have "u ! i = drop k u ! (i - k)" "i - k < length (drop k u)"
    by auto
  then have "u ! i \<in> set (drop k u)"
    by (metis nth_mem)
  then show ?thesis
    using a(3) by (auto simp: list_ex_iff)
qed

lemma insertChildLoop_ok:
  assumes "insertChildLoop n np u a h off i = Inr n'"
    and "children n = []" "\<not> wildcardChild n" "indices n = []" "0 < priority n"
    and "\<forall>j. i \<le> j \<and> j < off \<longrightarrow> \<not> isWild (u ! j)"
    and "(path n = [] \<and> typo n \<noteq> wildcard) \<or> (i = 0 \<and> off = 0 \<and> 0 < np \<and> u \<noteq> [] \<and> isWild (u ! 0))"
  shows "everyNode nodeOk n' \<and> typo n' = typo n \<and> priority n' = priority n \<and>
         (path n = [] \<longrightarrow> path n' = [] \<or> (off < length u \<and> hd (path n') = u ! off)) \<and>
         (i = 0 \<and> off = 0 \<and> 0 < np \<and> u \<noteq> [] \<and> isWild (u ! 0) \<longrightarrow> path n' = path n)"
  using assms
proof (induction n np u a h off i arbitrary: n' rule: insertChildLoop.induct)
  case (1 n np u a h off i)
  note res = "1.prems"(1) [unfolded insertChildLoop.simps [of n np u a h off i]]
  note leafn = "1.prems"(2,3,4)
  note pos = "1.prems"(5)
  note gap = "1.prems"(6)
  note kind = "1.prems"(7)
  show ?case
  proof (cases "0 < np")
    case False
    then have n': "n' = Node (typo n) (drop off u) (nparams n) (indices n) (Some h)
               (priority n) (children n) (wildcardChild n)"
      using res by simp
    have "path n = []"
      using kind False by auto
    then show ?thesis
      using leafn False drop_head [of off u]
      by (simp add: n' nodeOk_def prioOk_def flagOk_def indexOk_def)
  next
    case np: True
    then have i: "i < length u"
      using res by (auto split: if_splits)
    show ?thesis
    proof (cases "isWild (u ! i)")
      case False
      then have rec: "insertChildLoop n np u a h off (Suc i) = Inr n'"
        using res np i by simp
      have fresh: "path n = [] \<and> typo n \<noteq> wildcard"
        using kind False by auto
      have "everyNode nodeOk n' \<and> typo n' = typo n \<and> priority n' = priority n \<and>
         (path n = [] \<longrightarrow> path n' = [] \<or> (off < length u \<and> hd (path n') = u ! off)) \<and>
         (Suc i = 0 \<and> off = 0 \<and> 0 < np \<and> u \<noteq> [] \<and> isWild (u ! 0) \<longrightarrow> path n' = path n)"
        using gap fresh
        by (intro "1.IH"(1) [OF _ _ False rec leafn pos]) (auto simp: np i)
      then show ?thesis
        using False by auto
    next
      case wild: True
      have offi: "off \<le> i"
        using gap wild by (meson not_le_imp_less order_refl)
      obtain e where fe: "findEnd u (Suc i) = Inr e"
        using res np i wild by (cases "findEnd u (Suc i)") auto
      have e: "Suc i \<le> e" "e \<le> length u" "\<forall>j. Suc i \<le> j \<and> j < e \<longrightarrow> \<not> isWild (u ! j)"
        using findEnd_Inr [OF fe] i by auto
      have res2: "(if e - i < 2 then Inl (Panic (''wildcard must be named with a non-empty name in path '' @ sq @ a @ sq))
             else if u ! i = CHR '':'' then
               (let n1 = (if 0 < i
                          then Node (typo n) (slice u off i) (nparams n) (indices n)
                                 (handle n) (priority n) (children n) (wildcardChild n)
                          else n);
                    offset1 = (if 0 < i then i else off);
                    numParams1 = np - 1
                in if e < length u then
                     (case insertChildLoop (Node static [] numParams1 [] None 1 [] False)
                             numParams1 u a h e (Suc i) of
                        Inl e \<Rightarrow> Inl e
                      | Inr g \<Rightarrow>
                          Inr (Node (typo n1) (path n1) (nparams n1) (indices n1) (handle n1)
                                 (priority n1)
                                 [Node param (slice u offset1 e) np [] None 1
                                    [g] False]
                                 True))
                   else
                     (case insertChildLoop (Node param [] np [] None 1 [] False)
                             numParams1 u a h offset1 (Suc i) of
                        Inl e \<Rightarrow> Inl e
                      | Inr c \<Rightarrow>
                          Inr (Node (typo n1) (path n1) (nparams n1) (indices n1) (handle n1)
                                 (priority n1) [c] True)))
             else
               if e \<noteq> length u \<or> 1 < np then
                 Inl (Panic (''catch-all routes are only allowed at the end of the path in path ''
                             @ sq @ a @ sq))
               else if 0 < length (path n) \<and> last (path n) = CHR ''/'' then
                 Inl (Panic (''catch-all conflicts with existing handle for the path segment root in path ''
                             @ sq @ a @ sq))
               else if i = 0 then Inl IndexOutOfRange
               else if u ! (i - 1) \<noteq> CHR ''/'' then
                 Inl (Panic (''no / before catch-all in path '' @ sq @ a @ sq))
               else if i - 1 < off then Inl IndexOutOfRange
               else
                 Inr (Node (typo n) (slice u off (i - 1)) (nparams n)
                        [u ! (i - 1)] (handle n) (priority n)
                        [Node wildcard [] 1 [] None 1
                           [Node wildcard (drop (i - 1) u) 1 [] (Some h) 1 [] False]
                           True]
                        (wildcardChild n))) = Inr n'"
        using res np i wild fe leafn by simp
      then have name: "\<not> e - i < 2"
        by (auto split: if_splits)
      have one: "1 \<le> priority n"
        using pos by (rule word_one_le)
      show ?thesis
      proof (cases "u ! i = CHR '':''")
        case colon: True
        define n1 where "n1 = (if 0 < i
             then Node (typo n) (slice u off i) (nparams n) (indices n)
                    (handle n) (priority n) (children n) (wildcardChild n)
             else n)"
        define off1 where "off1 = (if 0 < i then i else off)"
        have off1: "off1 = i"
          using offi by (simp add: off1_def)
        have n1: "typo n1 = typo n" "priority n1 = priority n" "indices n1 = []"
          by (simp_all add: n1_def leafn)
        have pn1: "path n = [] \<longrightarrow> path n1 = [] \<or> (off < length u \<and> hd (path n1) = u ! off)"
          using slice_head [of "slice u off i" u off i] i by (auto simp: n1_def)
        have pn1': "i = 0 \<longrightarrow> path n1 = path n"
          by (simp add: n1_def)
        show ?thesis
        proof (cases "e < length u")
          case more: True
          obtain g where g: "insertChildLoop (Node static [] (np - 1) [] None 1 [] False)
                  (np - 1) u a h e (Suc i) = Inr g"
            and n': "n' = Node (typo n1) (path n1) (nparams n1) (indices n1) (handle n1)
                       (priority n1) [Node param (slice u off1 e) np [] None 1 [g] False] True"
            using res2 name colon more
            by (auto simp: Let_def n1_def off1_def split: sum.splits)
          have gok: "everyNode nodeOk g \<and> typo g = static \<and> priority g = 1"
            using "1.IH"(2) [OF _ _ _ fe _ _ colon refl refl refl more g] np i wild leafn name e
            by auto
          have pw: "list_ex isWild (slice u off1 e)"
            using i e(1) wild by (simp add: off1 slice_wild)
          have "nodeOk (Node param (slice u off1 e) np [] None 1 [g] False)"
            using gok by (simp add: nodeOk_def prioOk_def flagOk_def indexOk_def)
          then have pok: "everyNode nodeOk (Node param (slice u off1 e) np [] None 1 [g] False)"
            using gok by simp
          have "nodeOk n'"
            using n1 one pw by (simp add: n' nodeOk_def prioOk_def flagOk_def indexOk_def)
          then have "everyNode nodeOk n'"
            using pok by (simp add: n')
          then show ?thesis
            using n1 pn1 pn1' by (auto simp: n')
        next
          case last: False
          then have elen: "e = length u"
            using e by simp
          define P0 :: "'a node" where "P0 = Node param [] np [] None 1 [] False"
          obtain c where c: "insertChildLoop P0 (np - 1) u a h off1 (Suc i) = Inr c"
            and n': "n' = Node (typo n1) (path n1) (nparams n1) (indices n1) (handle n1)
                       (priority n1) [c] True"
            using res2 name colon last
            by (auto simp: Let_def n1_def off1_def P0_def split: sum.splits)
          have "\<not> 0 < np - 1"
          proof
            assume "0 < np - 1"
            then have "insertChildLoop P0 (np - 1) u a h off1 (Suc i) = Inl IndexOutOfRange"
              using e elen i by (intro insertChildLoop_runs_out) auto
            with c show False by simp
          qed
          then have "insertChildLoop P0 (np - 1) u a h off1 (Suc i) =
              Inr (Node param (drop off1 u) np [] (Some h) 1 [] False)"
            by (subst insertChildLoop.simps) (simp add: P0_def)
          then have cdef: "c = Node param (drop off1 u) np [] (Some h) 1 [] False"
            using c by simp
          have pw: "list_ex isWild (drop off1 u)"
            using i wild by (intro drop_wild [of _ i]) (auto simp: off1)
          have cok: "everyNode nodeOk c"
            by (simp add: cdef nodeOk_def prioOk_def flagOk_def indexOk_def)
          have "nodeOk n'"
            using n1 one pw by (simp add: n' cdef nodeOk_def prioOk_def flagOk_def indexOk_def)
          then have "everyNode nodeOk n'"
            using cok by (simp add: n')
          then show ?thesis
            using n1 pn1 pn1' by (auto simp: n')
        qed
      next
        case star: False
        then have i0: "i \<noteq> 0" and offi1: "off \<le> i - 1"
          and n': "n' = Node (typo n) (slice u off (i - 1)) (nparams n)
                        [u ! (i - 1)] (handle n) (priority n)
                        [Node wildcard [] 1 [] None 1
                           [Node wildcard (drop (i - 1) u) 1 [] (Some h) 1 [] False]
                           True]
                        (wildcardChild n)"
          using res2 name by (auto split: if_splits)
        have fresh: "path n = []" "typo n \<noteq> wildcard"
          using kind i0 by auto
        have pw: "list_ex isWild (drop (i - 1) u)"
          using i wild by (intro drop_wild [of _ i]) auto
        have "nodeOk (Node wildcard [] 1 [] None 1
                           [Node wildcard (drop (i - 1) u) 1 [] (Some h) 1 [] False] True)"
          using pw by (simp add: nodeOk_def prioOk_def flagOk_def indexOk_def)
        then have wok: "everyNode nodeOk (Node wildcard [] 1 [] None 1
                           [Node wildcard (drop (i - 1) u) 1 [] (Some h) 1 [] False] True)"
          by (simp add: nodeOk_def prioOk_def flagOk_def indexOk_def)
        have "nodeOk n'"
          using one fresh leafn by (simp add: n' nodeOk_def prioOk_def flagOk_def indexOk_def)
        then have "everyNode nodeOk n'"
          using wok by (simp add: n')
        then show ?thesis
          using i0 slice_head [of "slice u off (i - 1)" u off "i - 1"] i by (auto simp: n')
      qed
    qed
  qed
qed

subsection \<open>One registration keeps the invariant\<close>

lemma wcount_drop_le: "wcount (drop k u) \<le> wcount u"
proof -
  have "wcount u = wcount (take k u) + wcount (drop k u)"
    unfolding wcount_def by (metis append_take_drop_id filter_append length_append)
  then show ?thesis by simp
qed

lemma wcount_prefix:
  "take (length p) u = p \<Longrightarrow> wcount u = wcount p + wcount (drop (length p) u)"
  unfolding wcount_def by (metis append_take_drop_id filter_append length_append)

lemma wcount_wild: "list_ex isWild p \<Longrightarrow> 1 \<le> wcount p"
  unfolding wcount_def list_ex_iff
  by (metis One_nat_def Suc_leI filter_empty_conv length_greater_0_conv)

lemma wcount_hd: "u \<noteq> [] \<Longrightarrow> isWild (hd u) \<Longrightarrow> 1 \<le> wcount u"
  by (cases u) (simp_all add: wcount_def)

lemma indexByte_None: "indexByte c ix = None \<Longrightarrow> c \<notin> set ix"
  by (induction ix) (auto split: if_splits)

lemma prefix_head: "p = [] \<or> hd p = x \<Longrightarrow> take j p = [] \<or> hd (take j p) = x"
  by (cases j; cases p) auto

lemma bump_only_child:
  assumes "nodeOk n" "children n = [c]" "priority c < priority n"
  shows "nodeOk (setChildren n [bumpPriority c])"
  using assms word_bump [OF assms(3)]
  by (auto simp: nodeOk_def prioOk_def flagOk_def indexOk_def list_all2_Cons2)

lemma insertChildLoop_no_children:
  assumes "insertChildLoop n np u a h 0 0 = Inr n'" "0 < np" "u \<noteq> []" "isWild (u ! 0)"
  shows "children n = []"
  using assms(1) [unfolded insertChildLoop.simps [of n np u a h 0 0]] assms(2,3,4)
  by (auto split: if_splits sum.splits)

definition walkPre :: "'h node \<Rightarrow> string \<Rightarrow> 8 word \<Rightarrow> bool" where
  "walkPre n u mp =
     (nodeOk n \<and> (\<forall>c\<in>set (children n). everyNode nodeOk c \<and> priority c < priority n) \<and>
      0 < priority n \<and>
      (typo n = param \<longrightarrow> take (length (path n)) u = path n \<and>
          (length u \<le> length (path n) \<or> u ! length (path n) = CHR ''/'')) \<and>
      wcount (drop (lcp u (path n)) u) \<le> unat mp)"

definition walkPost :: "'h node \<Rightarrow> string \<Rightarrow> 'h node \<Rightarrow> bool" where
  "walkPost n u n' =
     (everyNode nodeOk n' \<and> typo n' = typo n \<and> priority n' = priority n \<and>
      path n' = take (lcp u (path n)) u)"

lemma walkPre_child:
  assumes "everyNode nodeOk c" "priority c < pr" "typo c \<noteq> param" "wcount u \<le> unat mp"
  shows "walkPre (bumpPriority c) u mp"
proof -
  have "nodeOk c"
    using assms(1) by (simp add: everyNode_sel [of _ c])
  then have "nodeOk (bumpPriority c)"
    "\<forall>d\<in>set (children (bumpPriority c)). priority d < priority (bumpPriority c)"
    using assms(2) nodeOk_bump strict_bump by blast+
  moreover have "\<forall>d\<in>set (children (bumpPriority c)). everyNode nodeOk d"
    using assms(1) by (simp add: everyNode_sel [of _ c])
  moreover have "wcount (drop (lcp u (path c)) u) \<le> unat mp"
    using wcount_drop_le [of "lcp u (path c)" u] assms(4) by simp
  ultimately show ?thesis
    using assms(2,3) bump_positive [of c pr] by (simp add: walkPre_def)
qed

lemma walkPost_child:
  assumes "walkPost c u c2" "path c = [] \<or> hd (path c) = x"
  shows "path c2 = [] \<or> hd (path c2) = x"
proof -
  have "path c2 = take (lcp u (path c)) (path c)"
    using assms(1) lcp_take [of u "path c"] by (simp add: walkPost_def)
  then show ?thesis
    using prefix_head [OF assms(2)] by simp
qed

lemma walk_ok:
  "walk n u mp a h = Inr n' \<Longrightarrow> walkPre n u mp \<Longrightarrow> walkPost n u n'"
proof (induction n u mp a h arbitrary: n' rule: walk.induct)
  case (1 n u mp a h)
  define n1 where "n1 = raiseNparams mp n"
  define i where "i = lcp u (path n1)"
  define n2 where "n2 = (if i < length (path n1) then splitEdge n1 i u else n1)"
  define u' where "u' = drop i u"
  note pre = "1.prems"(2) [unfolded walkPre_def]
  have i_n: "i = lcp u (path n)"
    by (simp add: i_def n1_def)
  have ile: "i \<le> length u" "i \<le> length (path n)"
    using lcp_le [of u "path n"] by (simp_all add: i_n)
  have ok: "nodeOk n" and ch: "\<forall>c\<in>set (children n). everyNode nodeOk c \<and> priority c < priority n"
    and pos: "0 < priority n" and wc: "wcount u' \<le> unat mp"
    using pre by (simp_all add: u'_def i_n)
  have par_pre: "typo n = param \<Longrightarrow> i = length (path n) \<and>
      (length u \<le> length (path n) \<or> u ! length (path n) = CHR ''/'')"
    using pre lcp_prefix [of "path n" u] by (simp add: i_n)
  have nosplit: "\<not> i < length (path n1) \<Longrightarrow> n2 = n1 \<and> path n = take i u"
  proof -
    assume "\<not> i < length (path n1)"
    then have "i = length (path n)" "n2 = n1"
      using ile by (simp_all add: n1_def n2_def)
    then show ?thesis
      using lcp_take [of u "path n"] by (simp add: i_n)
  qed
  have n2: "nodeOk n2"
    "\<forall>c\<in>set (children n2). everyNode nodeOk c \<and> priority c < priority n"
    "typo n2 = typo n" "priority n2 = priority n" "path n2 = take i u"
    "typo n = param \<longrightarrow> n2 = n1"
  proof -
    show "typo n = param \<longrightarrow> n2 = n1"
      using par_pre by (simp add: n2_def n1_def)
    show "typo n2 = typo n" "priority n2 = priority n"
      by (simp_all add: n2_def n1_def)
    show "path n2 = take i u"
      using nosplit by (cases "i < length (path n1)") (simp_all add: n2_def n1_def)
    have s: "i < length (path n1) \<Longrightarrow> nodeOk (splitEdge n1 i u) \<and>
         (\<forall>c\<in>set (children (splitEdge n1 i u)). everyNode nodeOk c \<and> priority c < priority n1)"
      using ok ch pos par_pre by (intro splitEdge_ok) (auto simp: n1_def)
    show "nodeOk n2"
      using s ok by (cases "i < length (path n1)") (simp_all add: n2_def n1_def)
    show "\<forall>c\<in>set (children n2). everyNode nodeOk c \<and> priority c < priority n"
      using s ch by (cases "i < length (path n1)") (simp_all add: n2_def n1_def)
  qed
  have kids: "\<And>cs. nodeOk (setChildren n2 cs) \<Longrightarrow> \<forall>c\<in>set cs. everyNode nodeOk c \<Longrightarrow>
      walkPost n u (setChildren n2 cs)"
    using n2 by (simp add: walkPost_def everyNode_sel [of _ "setChildren n2 _"] i_n)
  note res = "1.prems"(1) [unfolded walk.simps [of n u mp a h] Let_def,
      folded n1_def, folded i_def, folded n2_def, folded u'_def]
  show ?case
  proof (cases "i < length u")
    case False
    then have "i = length u"
      using ile by simp
    then have n': "n' = Node (typo n2) (path n2) (nparams n2) (indices n2) (Some h)
                     (priority n2) (children n2) (wildcardChild n2)"
      using res by (auto split: if_splits)
    have "nodeOk n' = nodeOk n2"
      by (rule nodeOk_fields) (simp_all add: n')
    then show ?thesis
      using n2 by (simp add: walkPost_def everyNode_sel [of _ n'] i_n) (simp add: n')
  next
    case ilt: True
    then have u'ne: "u' \<noteq> []" and hdu: "hd u' = u ! i"
      by (simp_all add: u'_def hd_drop_conv_nth)
    show ?thesis
    proof (cases "wildcardChild n2")
      case flag: True
      then obtain c0 where cs: "children n2 = c0 # []"
        and wild0: "list_ex isWild (path c0)"
        using n2(1) by (cases "children n2") (auto simp: nodeOk_def flagOk_def)
      define c1 where "c1 = raiseNparams mp (bumpPriority c0)"
      have chk: "length (path c1) \<le> length u' \<and> path c1 = take (length (path c1)) u' \<and>
                 (length u' \<le> length (path c1) \<or> u' ! length (path c1) = CHR ''/'')"
        using res ilt flag cs by (auto simp: c1_def split: if_splits)
      obtain c2 where rec: "walk c1 u' (mp - 1) a h = Inr c2"
        and n': "n' = setChildren n2 [c2]"
        using res ilt flag cs chk by (auto simp: c1_def split: if_splits sum.splits)
      have c0: "everyNode nodeOk c0" "priority c0 < priority n"
        using n2(2) cs by simp_all
      have pc: "path c1 = path c0" "typo c1 = typo c0" "priority c1 = priority c0 + 1"
        by (simp_all add: c1_def)
      have lc: "lcp u' (path c1) = length (path c1)"
        using chk by (intro lcp_prefix) simp
      have w1: "wcount u' = wcount (path c1) + wcount (drop (length (path c1)) u')"
        using chk by (intro wcount_prefix) simp
      have "1 \<le> wcount (path c1)"
        using wcount_wild [OF wild0] pc by simp
      then have "wcount (drop (length (path c1)) u') \<le> unat mp - 1" "0 < unat mp"
        using w1 wc by simp_all
      moreover have "0 < mp"
        using \<open>0 < unat mp\<close> by (simp add: unat_gt_0 word_neq_0_conv)
      ultimately have wc1: "wcount (drop (lcp u' (path c1)) u') \<le> unat (mp - 1)"
        using lc by (simp add: unat_pred8)
      have "nodeOk c0"
        using c0(1) by (simp add: everyNode_sel [of _ c0])
      then have "walkPre c1 u' (mp - 1)"
        using nodeOk_bump [of c0] strict_bump [of c0] bump_positive [of c0] c0 chk wc1
        by (simp add: walkPre_def c1_def everyNode_sel [of _ c0])
      then have post: "walkPost c1 u' c2"
        by (rule "1.IH"(1) [OF n1_def i_def n2_def ilt u'_def flag cs c1_def chk rec])
      have p2: "path c2 = path c0" "typo c2 = typo c0" "priority c2 = priority c0 + 1"
        "everyNode nodeOk c2"
        using post lc chk pc by (simp_all add: walkPost_def)
      have b: "nodeOk (setChildren n2 [bumpPriority c0])"
        using n2(1) cs c0(2) n2(4) by (intro bump_only_child) simp_all
      have "nodeOk (setChildren (setChildren n2 [bumpPriority c0])
                      ((children (setChildren n2 [bumpPriority c0]))[0 := c2]))"
        using b p2 flag by (intro replace_child) simp_all
      then have "nodeOk (setChildren n2 [c2])"
        by (simp add: setChildren_def)
      then show ?thesis
        using p2(4) by (simp add: n' kids)
    next
      case nflag: False
      have nonparam: "\<And>c. c \<in> set (children n2) \<Longrightarrow> typo c \<noteq> param"
        using n2(1) nflag by (auto simp: nodeOk_def flagOk_def list_all_iff)
      have parallel: "\<not> (typo n2 = param \<and> hd u' = CHR ''/'' \<and> length (children n2) = 1) \<Longrightarrow>
          length (indices n2) = length (children n2)"
      proof -
        assume ns: "\<not> (typo n2 = param \<and> hd u' = CHR ''/'' \<and> length (children n2) = 1)"
        have "hd u' = CHR ''/''" if "typo n = param"
          using par_pre [OF that] ilt hdu by auto
        then have "\<not> (typo n2 = param \<and> indices n2 = [] \<and> length (children n2) = 1)"
          using ns n2(3) by auto
        then show ?thesis
          using n2(1) nflag by (auto simp: nodeOk_def indexOk_def list_all2_lengthD)
      qed
      show ?thesis
      proof (cases "typo n2 = param \<and> hd u' = CHR ''/'' \<and> length (children n2) = 1")
        case slash: True
        then obtain c where cs: "children n2 = [c]"
          by (cases "children n2") auto
        obtain c2 where rec: "walk (bumpPriority (hd (children n2))) u' mp a h = Inr c2"
          and n': "n' = setChildren n2 [c2]"
          using res ilt nflag slash by (auto split: if_splits sum.splits)
        have c: "everyNode nodeOk c" "priority c < priority n" "typo c \<noteq> param"
          using n2(2) cs nonparam by simp_all
        have "walkPre (bumpPriority (hd (children n2))) u' mp"
          using c wc cs by (simp add: walkPre_child)
        then have post: "walkPost (bumpPriority (hd (children n2))) u' c2"
          by (rule "1.IH"(2) [OF n1_def i_def n2_def ilt u'_def nflag slash rec])
        have p2: "typo c2 = typo c" "priority c2 = priority c + 1" "everyNode nodeOk c2"
          using post cs by (simp_all add: walkPost_def)
        have idx: "0 < length (indices n2) \<longrightarrow> path c2 = [] \<or> hd (path c2) = indices n2 ! 0"
        proof
          assume "0 < length (indices n2)"
          then have "path c = [] \<or> hd (path c) = indices n2 ! 0"
            using n2(1) nflag cs by (auto simp: nodeOk_def indexOk_def list_all2_Cons2)
          then show "path c2 = [] \<or> hd (path c2) = indices n2 ! 0"
            using walkPost_child [OF post] cs by simp
        qed
        have b: "nodeOk (setChildren n2 [bumpPriority c])"
          using n2(1) cs c(2) n2(4) by (intro bump_only_child) simp_all
        have "nodeOk (setChildren (setChildren n2 [bumpPriority c])
                        ((children (setChildren n2 [bumpPriority c]))[0 := c2]))"
          using b p2 nflag idx by (intro replace_child) simp_all
        then have "nodeOk (setChildren n2 [c2])"
          by (simp add: setChildren_def)
        then show ?thesis
          using p2(3) by (simp add: n' kids)
      next
        case nslash: False
        note par = parallel [OF nslash]
        show ?thesis
        proof (cases "indexByte (hd u') (indices n2)")
          case (Some k)
          then have k: "k < length (indices n2)" "indices n2 ! k = hd u'"
            using indexByte_Some by blast+
          obtain n3 k' where inc: "incrementChildPriority n2 k = Inr (n3, k')"
            using res ilt nflag nslash Some
            by (cases "incrementChildPriority n2 k") (auto split: if_splits)
          obtain c2 where rec: "walk (children n3 ! k') u' mp a h = Inr c2"
            and n': "n' = setChildren n3 ((children n3)[k' := c2])"
            using res ilt nflag nslash Some inc by (auto split: if_splits sum.splits)
          have strict: "\<forall>c\<in>set (children n2). priority c < priority n2"
            using n2(2,4) by simp
          note icp = incrementChildPriority_ok [OF inc n2(1) strict nflag par]
          define c where "c = children n2 ! k"
          have cin: "c \<in> set (children n2)"
            using k par by (simp add: c_def)
          have c: "everyNode nodeOk c" "priority c < priority n" "typo c \<noteq> param"
            using n2(2) cin nonparam by simp_all
          have child: "children n3 ! k' = bumpPriority c"
            using icp by (simp add: c_def)
          have "walkPre (children n3 ! k') u' mp"
            using c wc by (simp add: child walkPre_child)
          then have post: "walkPost (children n3 ! k') u' c2"
            by (rule "1.IH"(3) [OF n1_def i_def n2_def ilt u'_def nflag nslash Some inc refl rec])
          have "path c = [] \<or> hd (path c) = indices n2 ! k"
            using nodeOk_parallel(2) [OF n2(1) nflag par] k(1) par
            unfolding c_def by (auto simp: list_all2_conv_all_nth)
          then have "path (bumpPriority c) = [] \<or> hd (path (bumpPriority c)) = indices n3 ! k'"
            using icp by simp
          then have idx: "path c2 = [] \<or> hd (path c2) = indices n3 ! k'"
            using walkPost_child [OF post] child by simp
          have p2: "typo c2 = typo (children n3 ! k')" "priority c2 = priority (children n3 ! k')"
            "everyNode nodeOk c2"
            using post by (simp_all add: walkPost_def)
          have "nodeOk (setChildren n3 ((children n3)[k' := c2]))"
            using icp p2 idx by (intro replace_child) simp_all
          moreover have "\<forall>d\<in>set ((children n3)[k' := c2]). everyNode nodeOk d"
          proof
            fix d assume "d \<in> set ((children n3)[k' := c2])"
            then have "d = c2 \<or> d \<in> set (children n3)"
              by (meson insertE set_update_subset_insert subsetD)
            then have "d = c2 \<or> d = bumpPriority c \<or> d \<in> set (children n2)"
              using icp by (auto simp: c_def)
            then show "everyNode nodeOk d"
              using p2(3) everyNode_bump [OF c(1,2)] n2(2) by auto
          qed
          ultimately show ?thesis
            using icp n2 by (simp add: n' walkPost_def everyNode_sel [of _ "setChildren n3 _"] i_n)
        next
          case None
          show ?thesis
          proof (cases "isWild (hd u')")
            case False
            define fresh :: "'a node" where "fresh = Node static [] mp [] None 0 [] False"
            define n3 where "n3 = Node (typo n2) (path n2) (nparams n2) (indices n2 @ [hd u'])
                                 (handle n2) (priority n2) (children n2 @ [fresh])
                                 (wildcardChild n2)"
            have lastpos: "length (indices n3) - 1 = length (children n2)"
              using par by (simp add: n3_def)
            obtain n4 k' where inc: "incrementChildPriority n3 (length (children n2)) = Inr (n4, k')"
              using res ilt nflag nslash None False lastpos
              by (cases "incrementChildPriority n3 (length (children n2))")
                (auto simp: n3_def fresh_def split: if_splits)
            have fp: "freshPos (length (children n3)) (length (indices n3) - 1) k' = k'"
              using par by (simp add: freshPos_def n3_def)
            obtain c2 where ins: "insertChild (children n4 ! k') mp u' a h = Inr c2"
              and n': "n' = setChildren n4 ((children n4)[k' := c2])"
              using res ilt nflag nslash None False inc lastpos fp
              by (auto simp: n3_def fresh_def split: if_splits sum.splits)
            have nin: "hd u' \<notin> set (indices n2)"
              using None by (rule indexByte_None)
            have d: "distinct (indices n2)"
              and l2: "list_all2 (\<lambda>x c. path c = [] \<or> hd (path c) = x) (indices n2) (children n2)"
              using nodeOk_parallel [OF n2(1) nflag par] by simp_all
            have "prioOk n3"
              using n2(1) by (auto simp: nodeOk_def prioOk_def n3_def fresh_def sorted_wrt_append)
            moreover have "flagOk n3"
              using n2(1) nflag by (auto simp: nodeOk_def flagOk_def n3_def fresh_def)
            moreover have "indexOk n3"
              using d l2 nin by (auto simp: indexOk_def n3_def fresh_def intro: list_all2_appendI)
            ultimately have ok3: "nodeOk n3"
              by (simp add: nodeOk_def)
            have strict3: "\<forall>c\<in>set (children n3). priority c < priority n3"
              using n2(2,4) pos by (auto simp: n3_def fresh_def)
            have nf3: "\<not> wildcardChild n3" and par3: "length (indices n3) = length (children n3)"
              using nflag par by (simp_all add: n3_def)
            note icp = incrementChildPriority_ok [OF inc ok3 strict3 nf3 par3]
            have child: "children n4 ! k' = Node static [] mp [] None 1 [] False"
              using icp by (simp add: n3_def fresh_def nth_append bumpPriority_def)
            have idx4: "indices n4 ! k' = hd u'"
              using icp par by (simp add: n3_def nth_append)
            have "everyNode nodeOk c2 \<and> typo c2 = static \<and> priority c2 = 1 \<and>
                  (path c2 = [] \<or> (0 < length u' \<and> hd (path c2) = u' ! 0))"
              using insertChildLoop_ok [of "Node static [] mp [] None 1 [] False" mp u' a h 0 0 c2]
                ins child by (simp add: insertChild_def)
            then have p2: "everyNode nodeOk c2" "typo c2 = static" "priority c2 = 1"
              "path c2 = [] \<or> hd (path c2) = indices n4 ! k'"
              using u'ne idx4 by (auto simp: hd_conv_nth)
            have q2: "priority c2 = priority (children n4 ! k')" "typo c2 = typo (children n4 ! k')"
              using p2 by (simp_all add: child)
            have ok4: "nodeOk n4" "k' < length (children n4)" "\<not> wildcardChild n4"
              using icp by simp_all
            have "nodeOk (setChildren n4 ((children n4)[k' := c2]))"
              using ok4(3) p2(4) by (intro replace_child [OF ok4(1,2) q2]) simp_all
            moreover have "\<forall>d\<in>set ((children n4)[k' := c2]). everyNode nodeOk d"
            proof
              fix d assume "d \<in> set ((children n4)[k' := c2])"
              then have "d = c2 \<or> d \<in> set (children n4)"
                by (meson insertE set_update_subset_insert subsetD)
              then have "d = c2 \<or> d = bumpPriority fresh \<or> d = fresh \<or> d \<in> set (children n2)"
                using icp by (auto simp: n3_def nth_append)
              then show "everyNode nodeOk d"
                using p2(1) n2(2)
                by (auto simp: fresh_def bumpPriority_def nodeOk_def prioOk_def flagOk_def
                    indexOk_def)
            qed
            ultimately show ?thesis
              using icp n2
              by (simp add: n' walkPost_def everyNode_sel [of _ "setChildren n4 _"] i_n)
                (simp add: n3_def)
          next
            case wild: True
            have ins: "insertChildLoop n2 mp u' a h 0 0 = Inr n'"
              using res ilt nflag nslash None wild
              by (auto simp: insertChild_def split: if_splits)
            have "1 \<le> wcount u'"
              using u'ne wild by (rule wcount_hd)
            then have "0 < unat mp"
              using wc by linarith
            then have mp: "0 < mp"
              by (simp add: unat_gt_0 word_neq_0_conv)
            have w0: "isWild (u' ! 0)"
              using wild u'ne by (simp add: hd_conv_nth)
            have nokids: "children n2 = []"
              using insertChildLoop_no_children [OF ins mp u'ne w0] .
            then have noidx: "indices n2 = []"
              using par by simp
            have pos2: "0 < priority n2"
              using pos n2(4) by simp
            have "everyNode nodeOk n' \<and> typo n' = typo n2 \<and> priority n' = priority n2 \<and>
                  path n' = path n2"
              using insertChildLoop_ok [OF ins nokids nflag noidx pos2] mp u'ne w0 by simp
            then show ?thesis
              using n2 by (simp add: walkPost_def i_n)
          qed
        qed
      qed
    qed
  qed
qed

lemma unat_bump:
  assumes "unat (x::32 word) < 2 ^ 32 - 1"
  shows "x < x + 1 \<and> unat (x + 1) = unat x + 1"
proof -
  have "unat x + unat (1::32 word) < 2 ^ LENGTH(32)"
    using assms by simp
  then have "unat (x + 1) = unat x + unat (1::32 word)"
    by (simp only: unat_add_lem)
  then have u: "unat (x + 1) = unat x + 1"
    by simp
  then have "x < x + 1"
    by (simp add: word_less_nat_alt)
  with u show ?thesis
    by simp
qed

lemma register_ok:
  assumes reg: "register t p h = Inr t'"
    and ok: "everyNode nodeOk t" and ty: "typo t \<noteq> param"
    and pr: "unat (priority t) < 2 ^ 32 - 1" and wp: "wcount p \<le> 255"
  shows "everyNode nodeOk t' \<and> typo t' \<noteq> param \<and> unat (priority t') = unat (priority t) + 1"
proof -
  have lt: "priority t < priority t + 1"
    using unat_bump [OF pr] by simp
  have okn: "nodeOk t"
    using ok by (simp add: everyNode_sel [of _ t])
  show ?thesis
  proof (cases "0 < length (path t) \<or> 0 < length (children t)")
    case True
    then have w: "walk (bumpPriority t) p (countParams p) p h = Inr t'"
      using reg by (simp add: register_def Let_def)
    have "wcount (drop (lcp p (path t)) p) \<le> unat (countParams p)"
      using wcount_drop_le [of "lcp p (path t)" p] wp by (simp add: unat_countParams)
    then have "walkPre (bumpPriority t) p (countParams p)"
      using nodeOk_bump [OF okn lt] strict_bump [OF okn lt] bump_positive [OF lt] ok ty
      by (simp add: walkPre_def everyNode_sel [of _ t])
    then have "walkPost (bumpPriority t) p t'"
      by (rule walk_ok [OF w])
    then show ?thesis
      using ty unat_bump [OF pr] by (simp add: walkPost_def)
  next
    case False
    then have e: "path t = []" "children t = []"
      by simp_all
    then have nf: "\<not> wildcardChild t" and ni: "indices t = []"
      using okn by (auto simp: nodeOk_def flagOk_def indexOk_def)
    define r where "r = Node root [] (nparams t) [] (handle t) (priority t + 1) [] False"
    have i: "insertChildLoop r (countParams p) p p h 0 0 = Inr t'"
      using reg False e nf ni by (simp add: register_def Let_def insertChild_def r_def)
    have "0 < priority r"
      using bump_positive [OF lt] by (simp add: r_def)
    then have "everyNode nodeOk t' \<and> typo t' = typo r \<and> priority t' = priority r"
      using insertChildLoop_ok [OF i] by (simp add: r_def)
    then show ?thesis
      using unat_bump [OF pr] by (simp add: r_def)
  qed
qed

lemma registerAll_ok:
  assumes "registerAll t rs = Inr t'"
    and "everyNode nodeOk t" "typo t \<noteq> param"
    and "unat (priority t) + length rs < 2 ^ 32"
    and "\<forall>r\<in>set rs. wcount (fst r) \<le> 255"
  shows "everyNode nodeOk t'"
  using assms
proof (induction rs arbitrary: t)
  case Nil
  then show ?case by simp
next
  case (Cons r rs)
  obtain p h where r: "r = (p, h)"
    by (cases r)
  obtain t1 where t1: "register t p h = Inr t1" and rest: "registerAll t1 rs = Inr t'"
    using Cons.prems(1) r by (auto split: sum.splits)
  have "everyNode nodeOk t1 \<and> typo t1 \<noteq> param \<and> unat (priority t1) = unat (priority t) + 1"
    using Cons.prems r by (intro register_ok [OF t1]) auto
  then show ?case
    using Cons.prems by (intro Cons.IH [OF rest]) auto
qed

lemma emptyNode_ok: "everyNode nodeOk emptyNode \<and> typo emptyNode \<noteq> param \<and> unat (priority emptyNode) = 0"
  by (simp add: emptyNode_def nodeOk_def prioOk_def flagOk_def indexOk_def)

lemma built_ok:
  assumes "registerAll emptyNode rs = Inr t" "length rs < 2 ^ 32"
    "\<forall>r\<in>set rs. wcount (fst r) \<le> 255"
  shows "everyNode nodeOk t"
proof -
  have "everyNode nodeOk (emptyNode :: 'a node) \<and> typo (emptyNode :: 'a node) \<noteq> param \<and>
        unat (priority (emptyNode :: 'a node)) = 0"
    by (rule emptyNode_ok)
  then show ?thesis
    using assms(2,3) by (intro registerAll_ok [OF assms(1)]) auto
qed

lemma nodeOk_sorted_indexed: "nodeOk n \<Longrightarrow> sortedChildren n \<and> indexedStatic n"
proof -
  assume ok: "nodeOk n"
  have "indexedStatic n"
    unfolding indexedStatic_def list_all_iff
  proof (intro ballI)
    fix i assume "i \<in> set [0..<length (children n)]"
    then have i: "i < length (children n)"
      by simp
    show "if typo (children n ! i) = static \<and> path (children n ! i) \<noteq> [] \<and> typo n \<noteq> param
          then i < length (indices n) \<and> indices n ! i = hd (path (children n ! i)) else True"
    proof (cases "wildcardChild n")
      case True
      then have "length (children n) = 1" "typo (hd (children n)) \<noteq> static"
        using ok by (auto simp: nodeOk_def flagOk_def)
      then show ?thesis
        using i by (cases "children n") auto
    next
      case False
      then show ?thesis
        using ok i by (auto simp: nodeOk_def indexOk_def list_all2_conv_all_nth)
    qed
  qed
  then show ?thesis
    using ok by (simp add: nodeOk_def prioOk_def sortedChildren_def)
qed

lemma nodeOk_flag: "nodeOk n \<Longrightarrow> flagOfParam n"
proof -
  assume ok: "nodeOk n"
  show ?thesis
  proof (cases "wildcardChild n")
    case True
    then show ?thesis
      using ok by (cases "children n") (auto simp: nodeOk_def flagOk_def flagOfParam_def)
  next
    case False
    then show ?thesis
      using ok by (cases "children n") (auto simp: nodeOk_def flagOk_def flagOfParam_def)
  qed
qed

text \<open>
  Claim C6. In every tree built from the empty tree by successful registrations (fewer
  than \<open>2^32\<close> of them, since priorities are 32-bit counters, and of patterns with at most
  255 wildcards, since the parameter count is 8 bits wide), the children of every node
  are sorted by priority, highest first, and every static child with a non-empty path,
  of a node that is not a \<open>param\<close> node, has the first byte of its path at its own
  position in \<open>indices\<close>.
\<close>

theorem built_sorted_indexed:
  assumes "registerAll emptyNode rs = Inr t" "length rs < 2 ^ 32"
    "\<forall>r\<in>set rs. wcount (fst r) \<le> 255"
  shows "everyNode (\<lambda>n. sortedChildren n \<and> indexedStatic n) t"
  by (rule everyNode_mono [OF nodeOk_sorted_indexed built_ok [OF assms]])

theorem built_sorted_indexed_witness:
  "\<exists>t. registerAll emptyNode
          [(''/user/:id/x'', 1::nat), (''/user/:id/y'', 2), (''/files/*fp'', 3), (''/users'', 4),
           (''/user/:id/y/z'', 5), (''/user/:id/y/w'', 6)] = Inr t \<and>
        everyNode (\<lambda>n. sortedChildren n \<and> indexedStatic n) t"
proof -
  define rs where "rs = [(''/user/:id/x'', 1::nat), (''/user/:id/y'', 2), (''/files/*fp'', 3),
     (''/users'', 4), (''/user/:id/y/z'', 5), (''/user/:id/y/w'', 6)]"
  have "\<not> isl (registerAll emptyNode rs)"
    unfolding rs_def by code_simp
  then obtain t where t: "registerAll emptyNode rs = Inr t"
    by (cases "registerAll emptyNode rs") auto
  have "length rs < 2 ^ 32" "\<forall>r\<in>set rs. wcount (fst r) \<le> 255"
    by (simp_all add: rs_def wcount_def isWild_def)
  then have "everyNode (\<lambda>n. sortedChildren n \<and> indexedStatic n) t"
    by (rule built_sorted_indexed [OF t])
  with t show ?thesis
    unfolding rs_def by (intro exI conjI)
qed

theorem built_sorted_indexed_counterexample:
  "registerAll emptyNode [(''/u/:id/x'', 1::nat)] =
     Inr (Node root ''/u/'' 0 [] None 1
            [Node param '':id'' 1 [] None 1
               [Node static ''/x'' 0 [] (Some 1) 1 [] False] False] True) \<and>
   \<not> everyNode (\<lambda>n. sortedChildren n \<and> indexedAsStated n)
       (Node root ''/u/'' 0 [] None 1
            [Node param '':id'' 1 [] None 1
               [Node static ''/x'' 0 [] (Some (1::nat)) 1 [] False] False] True)"
  by code_simp

text \<open>
  Claim C7. In every tree built from the empty tree by successful registrations (under
  the same bounds), the flag of a node is set if and only if the node has a child and
  its first child is a \<open>param\<close> node, or the node is itself the first of the two
  catch-all nodes and its child is the second. The parent of a catch-all has the flag
  unset.
\<close>

theorem built_flag:
  assumes "registerAll emptyNode rs = Inr t" "length rs < 2 ^ 32"
    "\<forall>r\<in>set rs. wcount (fst r) \<le> 255"
  shows "everyNode flagOfParam t"
  by (rule everyNode_mono [OF nodeOk_flag built_ok [OF assms]])

theorem built_flag_witness:
  "\<exists>t. registerAll emptyNode
          [(''/blog/:category/:post'', 1::nat), (''/static/*filepath'', 2), (''/blog'', 3)] = Inr t \<and>
        everyNode flagOfParam t"
proof -
  define rs where "rs = [(''/blog/:category/:post'', 1::nat), (''/static/*filepath'', 2),
     (''/blog'', 3)]"
  have "\<not> isl (registerAll emptyNode rs)"
    unfolding rs_def by code_simp
  then obtain t where t: "registerAll emptyNode rs = Inr t"
    by (cases "registerAll emptyNode rs") auto
  have "length rs < 2 ^ 32" "\<forall>r\<in>set rs. wcount (fst r) \<le> 255"
    by (simp_all add: rs_def wcount_def isWild_def)
  then have "everyNode flagOfParam t"
    by (rule built_flag [OF t])
  with t show ?thesis
    unfolding rs_def by (intro exI conjI)
qed

theorem built_flag_counterexample:
  "registerAll emptyNode [(''/files/*fp'', 1::nat)] =
     Inr (Node root ''/files'' 0 ''/'' None 1
            [Node wildcard [] 1 [] None 1
               [Node wildcard ''/*fp'' 1 [] (Some 1) 1 [] False] True]
            False) \<and>
   \<not> everyNode flagAsStated
       (Node root ''/files'' 0 ''/'' None 1
            [Node wildcard [] 1 [] None 1
               [Node wildcard ''/*fp'' 1 [] (Some (1::nat)) 1 [] False] True]
            False)"
  by code_simp

section \<open>A single static route\<close>










section \<open>Case-insensitive lookup\<close>


definition toUpperByte :: "char \<Rightarrow> char" where
  "toUpperByte c =
     (if 97 \<le> (of_char c :: nat) \<and> (of_char c :: nat) \<le> 122
      then char_of ((of_char c :: nat) - 32) else c)"


definition toUpper :: "string \<Rightarrow> string" where
  "toUpper s = map toUpperByte s"
















lemma length_toUpper: "length (toUpper s) = length s"
  by (simp add: toUpper_def)





end
